theory Spec2Isabelle
  imports Main "HOL-Library.AList"
begin

section \<open>Data model\<close>

text \<open>
  JSON values as they travel through the chat runtime (tool-call parameters, parsed
  stream payloads).  JavaScript numbers are kept as integers; no property below depends
  on a fractional value.
\<close>

datatype json =
    JNull
  | JBool bool
  | JNum int
  | JStr string
  | JArr "json list"
  | JObj "(string \<times> json) list"

text \<open>JavaScript truthiness of a JSON value: \<open>null\<close>, \<open>false\<close>, \<open>0\<close> and \<open>""\<close> are falsy.\<close>

fun truthy :: "json \<Rightarrow> bool" where
  "truthy JNull = False"
| "truthy (JBool b) = b"
| "truthy (JNum n) = (n \<noteq> 0)"
| "truthy (JStr s) = (s \<noteq> [])"
| "truthy (JArr xs) = True"
| "truthy (JObj kvs) = True"

datatype role = System | User | Assistant

text \<open>
  The content parts of \<open>IChatMessage\<close>: text, thinking, image (mime type, data),
  tool use (name, call id, parameters) and tool result (call id, value parts, isError).
  The audience tag a text part may carry is left out.
\<close>

datatype part =
    TextPart string
  | ThinkingPart string
  | ImagePart string string
  | ToolUsePart string string json
  | ToolResultPart string "part list" bool

record message =
  role :: role
  content :: "part list"

text \<open>
  A thrown JavaScript value: an \<open>Error\<close> object with its message, \<open>null\<close> or
  \<open>undefined\<close> (on which a property read raises a \<open>TypeError\<close>), or any other value;
  the last two carry their \<open>String(e)\<close> rendering.
\<close>

datatype thrown = ErrorObj string | OtherValue string | NullishValue string

section \<open>Token accounting (\<open>computeTotalTokenCount\<close>)\<close>

text \<open>
  \<open>msg.content.map(p => p.type === 'text' ? p.value : '').join('')\<close>
\<close>

fun partText :: "part \<Rightarrow> string" where
  "partText (TextPart v) = v"
| "partText _ = []"

definition messageText :: "message \<Rightarrow> string" where
  "messageText msg = concat (map partText (content msg))"

text \<open>\<open>Math.ceil(text.length / 4)\<close> on a non-negative length.  \<open>text.length\<close> counts
  UTF-16 code units; a string is the list of its code units, of which a \<open>char\<close> holds
  those below 256.\<close>

definition charEstimate :: "message \<Rightarrow> int" where
  "charEstimate msg = int ((length (messageText msg) + 3) div 4)"

text \<open>
  The \<open>try\<close> block: the provider's \<open>computeTokenLength\<close> is awaited for each message in
  turn and added to the local variable \<open>total\<close>.  A throw leaves the loop with the value
  \<open>total\<close> had at that moment, which the \<open>catch\<close> block still sees.
\<close>

fun providerLoop :: "(message \<Rightarrow> thrown + int) \<Rightarrow> message list \<Rightarrow> int \<Rightarrow> (thrown \<times> int) + int" where
  "providerLoop computeTokenLength [] tot = Inr tot"
| "providerLoop computeTokenLength (msg # msgs) tot =
     (case computeTokenLength msg of
        Inl e \<Rightarrow> Inl (e, tot)
      | Inr n \<Rightarrow> providerLoop computeTokenLength msgs (tot + n))"

text \<open>The \<open>catch\<close> block: the character estimate of every message is added to \<open>total\<close>.\<close>

fun fallbackLoop :: "message list \<Rightarrow> int \<Rightarrow> int" where
  "fallbackLoop [] tot = tot"
| "fallbackLoop (msg # msgs) tot = fallbackLoop msgs (tot + charEstimate msg)"

definition computeTotalTokenCount :: "(message \<Rightarrow> thrown + int) \<Rightarrow> message list \<Rightarrow> int" where
  "computeTotalTokenCount computeTokenLength messages =
     (case providerLoop computeTokenLength messages 0 of
        Inr tot \<Rightarrow> tot
      | Inl (e, tot) \<Rightarrow> fallbackLoop messages tot)"

section \<open>OpenAI-compatible stream adapter (\<open>_callOpenAI\<close>, \<open>_callLocalModel\<close>)\<close>

text \<open>The canonical events an adapter emits on the response stream.\<close>

datatype streamEvent =
    EvText string
  | EvThinking string
  | EvToolUse string string json  \<comment> \<open>name, toolCallId, parameters\<close>

text \<open>
  One entry of \<open>choice.delta.tool_calls\<close>.  The wire protocol types \<open>index\<close> as a number
  and \<open>id\<close>, \<open>function.name\<close>, \<open>function.arguments\<close> as strings; an absent field is
  \<open>None\<close>.
\<close>

record tcDelta =
  tc_index :: "int option"
  tc_id :: "string option"
  tc_fname :: "string option"
  tc_fargs :: "string option"

text \<open>
  The fields of a parsed \<open>data:\<close> payload the adapter reads:
  \<open>choices[0].delta.content\<close>, \<open>.reasoning_content\<close> and \<open>.tool_calls\<close>.
\<close>

record sseChunk =
  delta_content :: "string option"
  delta_reasoning :: "string option"
  delta_tool_calls :: "tcDelta list option"

text \<open>The accumulator entry \<open>{ id?: string; name?: string; args: string }\<close>.\<close>

record toolAcc =
  acc_id :: "string option"
  acc_name :: "string option"
  acc_args :: string

text \<open>
  \<open>accumulatedToolCalls: Map<number, ...>\<close> is kept as an association list in insertion
  order, the order a JavaScript \<open>Map\<close> iterates in.
\<close>

type_synonym toolAccMap = "(int \<times> toolAcc) list"

text \<open>JavaScript truthiness of an optional string: present and not empty.\<close>

fun truthyStr :: "string option \<Rightarrow> bool" where
  "truthyStr None = False"
| "truthyStr (Some s) = (s \<noteq> [])"

definition deltaIndex :: "tcDelta \<Rightarrow> int" where
  "deltaIndex tc = (case tc_index tc of None \<Rightarrow> 0 | Some i \<Rightarrow> i)"

text \<open>
  The body of \<open>for (const tc of choice.delta.tool_calls)\<close>: look the entry up by index,
  create it with empty \<open>args\<close> when missing, overwrite \<open>id\<close> and \<open>name\<close> when the
  delta carries a truthy one, and append \<open>arguments\<close> whenever it is not \<open>undefined\<close>.
\<close>

definition applyDelta :: "toolAccMap \<Rightarrow> tcDelta \<Rightarrow> toolAccMap" where
  "applyDelta accs tc =
     (let idx = deltaIndex tc;
          acc0 = (case map_of accs idx of
                    None \<Rightarrow> \<lparr>acc_id = None, acc_name = None, acc_args = []\<rparr>
                  | Some a \<Rightarrow> a);
          acc1 = (if truthyStr (tc_id tc) then acc0\<lparr>acc_id := tc_id tc\<rparr> else acc0);
          acc2 = (if truthyStr (tc_fname tc) then acc1\<lparr>acc_name := tc_fname tc\<rparr> else acc1);
          acc3 = (case tc_fargs tc of
                    None \<Rightarrow> acc2
                  | Some a \<Rightarrow> acc2\<lparr>acc_args := acc_args acc2 @ a\<rparr>)
      in AList.update idx acc3 accs)"

text \<open>\<open>String.prototype.split('\n')\<close>: always at least one piece.\<close>

fun splitNl :: "string \<Rightarrow> string list" where
  "splitNl [] = [[]]"
| "splitNl (c # cs) =
     (if c = CHR 0x0A then [] # splitNl cs
      else (case splitNl cs of
              [] \<Rightarrow> [[c]]
            | l # ls \<Rightarrow> (c # l) # ls))"

text \<open>White space and line terminators removed by \<open>String.prototype.trim\<close>, among the
  characters a \<open>char\<close> can hold.\<close>

definition isJsSpace :: "char \<Rightarrow> bool" where
  "isJsSpace c = (c \<in> set [CHR 0x09, CHR 0x0A, CHR 0x0B, CHR 0x0C, CHR 0x0D, CHR 0x20, CHR 0xA0])"

definition trim :: "string \<Rightarrow> string" where
  "trim s = rev (dropWhile isJsSpace (rev (dropWhile isJsSpace s)))"

definition startsWith :: "string \<Rightarrow> string \<Rightarrow> bool" where
  "startsWith s p = (take (length p) s = p)"

record listenState =
  buffer :: string
  accumulated :: toolAccMap
  emitted :: "streamEvent list"

definition initListen :: listenState where
  "initListen = \<lparr>buffer = [], accumulated = [], emitted = []\<rparr>"

text \<open>
  What the \<open>try\<close> block does with a payload that parsed: emit the text delta, emit the
  thinking delta, accumulate the tool-call deltas.
\<close>

definition handleChunk :: "listenState \<Rightarrow> sseChunk \<Rightarrow> listenState" where
  "handleChunk st ch =
     (let st1 = (if truthyStr (delta_content ch)
                 then st\<lparr>emitted := emitted st @ [EvText (the (delta_content ch))]\<rparr> else st);
          st2 = (if truthyStr (delta_reasoning ch)
                 then st1\<lparr>emitted := emitted st1 @ [EvThinking (the (delta_reasoning ch))]\<rparr> else st1)
      in (case delta_tool_calls ch of
            None \<Rightarrow> st2
          | Some tcs \<Rightarrow> st2\<lparr>accumulated := foldl applyDelta (accumulated st2) tcs\<rparr>))"

text \<open>
  One line of the buffer.  \<open>parseData\<close> stands for \<open>JSON.parse(data)\<close> followed by the
  field reads; \<open>None\<close> is the \<open>catch\<close> branch, which ignores the line.
\<close>

definition processLine :: "(string \<Rightarrow> sseChunk option) \<Rightarrow> listenState \<Rightarrow> string \<Rightarrow> listenState" where
  "processLine parseData st line =
     (let trimmed = trim line in
      if startsWith trimmed ''data: '' then
        (let data = drop 6 trimmed in
         if data = ''[DONE]'' then st
         else (case parseData data of
                 None \<Rightarrow> st
               | Some ch \<Rightarrow> handleChunk st ch))
      else st)"

text \<open>\<open>onData\<close>: append the chunk to the buffer, keep the last piece as the new buffer
  and process the pieces before it.\<close>

definition onData :: "(string \<Rightarrow> sseChunk option) \<Rightarrow> listenState \<Rightarrow> string \<Rightarrow> listenState" where
  "onData parseData st chunk =
     (let pieces = splitNl (buffer st @ chunk)
      in foldl (processLine parseData) (st\<lparr>buffer := last pieces\<rparr>) (butlast pieces))"

text \<open>
  The body of the \<open>onEnd\<close> loop for one entry.  \<open>parseJson\<close> stands for \<open>JSON.parse\<close>
  on the accumulated argument text; \<open>None\<close> is a thrown \<open>SyntaxError\<close>, for which the
  \<open>catch\<close> branch emits the call with \<open>{}\<close>.
\<close>

definition finalizeOne :: "(string \<Rightarrow> json option) \<Rightarrow> toolAcc \<Rightarrow> streamEvent list" where
  "finalizeOne parseJson acc =
     (if truthyStr (acc_id acc) \<and> truthyStr (acc_name acc) then
        (if acc_args acc \<noteq> [] then
           (case parseJson (acc_args acc) of
              Some parameters \<Rightarrow> [EvToolUse (the (acc_name acc)) (the (acc_id acc)) parameters]
            | None \<Rightarrow> [EvToolUse (the (acc_name acc)) (the (acc_id acc)) (JObj [])])
         else [EvToolUse (the (acc_name acc)) (the (acc_id acc)) (JObj [])])
      else [])"

text \<open>\<open>onEnd\<close>: the indices in ascending order, one entry after the other.\<close>

definition onEnd :: "(string \<Rightarrow> json option) \<Rightarrow> toolAccMap \<Rightarrow> streamEvent list" where
  "onEnd parseJson accs =
     concat (map (\<lambda>idx. case map_of accs idx of
                           None \<Rightarrow> []
                         | Some acc \<Rightarrow> finalizeOne parseJson acc)
                 (sort (map fst accs)))"

text \<open>
  How the network stream finishes for the listener: \<open>onEnd\<close>, \<open>onError\<close>, or neither.
  \<open>listenStream\<close> is given the cancellation token and, once the token is cancelled,
  hands on no further \<open>data\<close>, \<open>end\<close> or \<open>error\<close> event; a stream cancelled on
  the way therefore ends silently for the listener, after the chunks it was handed.
\<close>

datatype ending = StreamEnd | StreamError thrown | StreamSilent

text \<open>What has become of a promise: fulfilled, rejected, or still pending for good.\<close>

datatype settled = Resolved | Rejected thrown | Unsettled

text \<open>
  The promise returned by \<open>_callOpenAI\<close> once the response has status 200: every chunk
  goes through \<open>onData\<close>; \<open>onEnd\<close> emits the accumulated calls and resolves,
  \<open>onError\<close> rejects; when neither is called the promise stays pending.  The result
  is the list of events emitted on the stream and what became of the promise.
\<close>

definition listenOpenAI ::
  "(string \<Rightarrow> sseChunk option) \<Rightarrow> (string \<Rightarrow> json option) \<Rightarrow> string list \<Rightarrow> ending
     \<Rightarrow> streamEvent list \<times> settled" where
  "listenOpenAI parseData parseJson chunks fin =
     (let st = foldl (onData parseData) initListen chunks in
      case fin of
        StreamEnd \<Rightarrow> (emitted st @ onEnd parseJson (accumulated st), Resolved)
      | StreamError e \<Rightarrow> (emitted st, Rejected e)
      | StreamSilent \<Rightarrow> (emitted st, Unsettled))"

subsection \<open>Reading the stream as a sequence of tool-call deltas\<close>

text \<open>
  The argument fragments a list of tool-call deltas carries for one index, in arrival
  order.  This is the reading of ``the fragments of a tool call'' used by the properties;
  it is not part of the adapter.
\<close>

definition fragmentsAt :: "int \<Rightarrow> tcDelta list \<Rightarrow> string list" where
  "fragmentsAt idx ds =
     concat (map (\<lambda>d. if deltaIndex d = idx
                       then (case tc_fargs d of None \<Rightarrow> [] | Some a \<Rightarrow> [a])
                       else []) ds)"

text \<open>The tool-call deltas carried by one line of the stream, if it is a \<open>data:\<close> line
  whose payload parses.\<close>

definition lineDeltas :: "(string \<Rightarrow> sseChunk option) \<Rightarrow> string \<Rightarrow> tcDelta list" where
  "lineDeltas parseData line =
     (let trimmed = trim line in
      if startsWith trimmed ''data: '' \<and> drop 6 trimmed \<noteq> ''[DONE]'' then
        (case parseData (drop 6 trimmed) of
           None \<Rightarrow> []
         | Some ch \<Rightarrow> (case delta_tool_calls ch of None \<Rightarrow> [] | Some tcs \<Rightarrow> tcs))
      else [])"

text \<open>The newline-terminated lines of the whole stream, and the deltas they carry.\<close>

definition completeLines :: "string list \<Rightarrow> string list" where
  "completeLines chunks = butlast (splitNl (concat chunks))"

definition streamDeltas :: "(string \<Rightarrow> sseChunk option) \<Rightarrow> string list \<Rightarrow> tcDelta list" where
  "streamDeltas parseData chunks = concat (map (lineDeltas parseData) (completeLines chunks))"

fun isToolUse :: "streamEvent \<Rightarrow> bool" where
  "isToolUse (EvToolUse n i p) = True"
| "isToolUse _ = False"

text \<open>
  What a list of tool-call deltas says about one index, read off the list alone: the last
  non-empty call id and the last non-empty function name given for the index, and (above)
  its argument fragments.
\<close>

definition idOf :: "int \<Rightarrow> tcDelta list \<Rightarrow> string option" where
  "idOf idx ds =
     foldl (\<lambda>cur d. if deltaIndex d = idx \<and> truthyStr (tc_id d) then tc_id d else cur) None ds"

definition nameOf :: "int \<Rightarrow> tcDelta list \<Rightarrow> string option" where
  "nameOf idx ds =
     foldl (\<lambda>cur d. if deltaIndex d = idx \<and> truthyStr (tc_fname d) then tc_fname d else cur) None ds"

text \<open>The parameters that go with an argument text: its parsed value when the text is not
  empty and parses, the empty object otherwise.\<close>

definition parametersOf :: "(string \<Rightarrow> json option) \<Rightarrow> string \<Rightarrow> json" where
  "parametersOf parseJson argumentText =
     (if argumentText = [] then JObj []
      else (case parseJson argumentText of None \<Rightarrow> JObj [] | Some v \<Rightarrow> v))"

text \<open>
  The tool calls a list of deltas amounts to: for every index that occurs, in ascending
  order, one call if both a call id and a name were given, with the parameters that go
  with the concatenation of the index's fragments.
\<close>

definition expectedCall :: "(string \<Rightarrow> json option) \<Rightarrow> tcDelta list \<Rightarrow> int \<Rightarrow> streamEvent list" where
  "expectedCall parseJson ds idx =
     (case (idOf idx ds, nameOf idx ds) of
        (Some callId, Some name) \<Rightarrow>
          [EvToolUse name callId (parametersOf parseJson (concat (fragmentsAt idx ds)))]
      | _ \<Rightarrow> [])"

definition expectedCalls :: "(string \<Rightarrow> json option) \<Rightarrow> tcDelta list \<Rightarrow> streamEvent list" where
  "expectedCalls parseJson ds =
     concat (map (expectedCall parseJson ds) (sort (remdups (map deltaIndex ds))))"

text \<open>The argument text accumulated for an index (empty when there is no entry).\<close>

definition argsAt :: "toolAccMap \<Rightarrow> int \<Rightarrow> string" where
  "argsAt accs idx = (case map_of accs idx of None \<Rightarrow> [] | Some a \<Rightarrow> acc_args a)"

text \<open>
  A sample stream.  \<open>demoParseData\<close> and \<open>demoParseJson\<close> give the result of
  \<open>JSON.parse\<close> on the payloads and argument texts that occur in it, and a parse
  failure on every other text, among them the incomplete argument text \<open>[1\<close>.
\<close>

definition demoParseData :: "string \<Rightarrow> sseChunk option" where
  "demoParseData data =
     (if data = ''{\"choices\":[{\"delta\":{\"tool_calls\":[{\"index\":0,\"id\":\"call_1\",\"function\":{\"name\":\"listDirectory\",\"arguments\":\"[1\"}}]}}]}''
      then Some \<lparr>delta_content = None, delta_reasoning = None,
                 delta_tool_calls = Some [\<lparr>tc_index = Some 0, tc_id = Some ''call_1'',
                                           tc_fname = Some ''listDirectory'', tc_fargs = Some ''[1''\<rparr>]\<rparr>
      else if data = ''{\"choices\":[{\"delta\":{\"tool_calls\":[{\"index\":0,\"function\":{\"arguments\":\",2]\"}}]}}]}''
      then Some \<lparr>delta_content = None, delta_reasoning = None,
                 delta_tool_calls = Some [\<lparr>tc_index = Some 0, tc_id = None,
                                           tc_fname = None, tc_fargs = Some '',2]''\<rparr>]\<rparr>
      else if data = ''{\"choices\":[{\"delta\":{\"content\":\"Hi\"}}]}''
      then Some \<lparr>delta_content = Some ''Hi'', delta_reasoning = None, delta_tool_calls = None\<rparr>
      else if data = ''{\"choices\":[{\"delta\":{\"tool_calls\":[{\"index\":1,\"function\":{\"name\":\"readFile\",\"arguments\":\"{}\"}}]}}]}''
      then Some \<lparr>delta_content = None, delta_reasoning = None,
                 delta_tool_calls = Some [\<lparr>tc_index = Some 1, tc_id = None,
                                           tc_fname = Some ''readFile'', tc_fargs = Some ''{}''\<rparr>]\<rparr>
      else None)"

definition demoParseJson :: "string \<Rightarrow> json option" where
  "demoParseJson text =
     (if text = ''[1,2]'' then Some (JArr [JNum 1, JNum 2])
      else if text = ''{}'' then Some (JObj [])
      else None)"

definition demoChunks :: "string list" where
  "demoChunks =
     [''data: {\"choices\":[{\"delta\":{\"tool_calls\":[{\"index\":0,\"id\":\"call_1\",\"function\":{\"name\":\"listDirectory\",\"arguments\":\"[1\"}}]}}]}\<newline>\<newline>da'',
      ''ta: {\"choices\":[{\"delta\":{\"tool_calls\":[{\"index\":0,\"function\":{\"arguments\":\",2]\"}}]}}]}\<newline>\<newline>'',
      ''data: [DONE]\<newline>\<newline>'']"

text \<open>The sample stream after a text delta.\<close>

definition demoTextChunks :: "string list" where
  "demoTextChunks = ''data: {\"choices\":[{\"delta\":{\"content\":\"Hi\"}}]}\<newline>\<newline>'' # demoChunks"

text \<open>The same stream cut off after its first chunk: the argument text stays \<open>[1\<close>.\<close>

definition demoCutChunks :: "string list" where
  "demoCutChunks = [hd demoChunks]"

text \<open>The sample stream followed by a call at index 1 that names a function but never
  supplies a call id.\<close>

definition demoNoIdChunks :: "string list" where
  "demoNoIdChunks =
     butlast demoChunks @
     [''data: {\"choices\":[{\"delta\":{\"tool_calls\":[{\"index\":1,\"function\":{\"name\":\"readFile\",\"arguments\":\"{}\"}}]}}]}\<newline>\<newline>'',
      ''data: [DONE]\<newline>\<newline>'']"


section \<open>Provider dispatch (\<open>_doSendChatRequest\<close>)\<close>



fun containsStr :: "string \<Rightarrow> string \<Rightarrow> bool" where
  "containsStr [] needle = (needle = [])"
| "containsStr (c # cs) needle =
     (take (length needle) (c # cs) = needle \<or> containsStr cs needle)"










section \<open>Chat responses\<close>

text \<open>
  The parts a response stream delivers (\<open>IChatResponsePart\<close>): text, thinking (a string
  or an array of strings), a tool call (name, toolCallId, parameters), or any other part.
\<close>

datatype thinkingValue = ThinkStr string | ThinkArr "string list"

datatype rpart =
    RText string
  | RThinking thinkingValue
  | RToolUse string string json
  | ROther

text \<open>
  What \<open>languageModelsService.sendChatRequest\<close> hands back: the items of
  \<open>response.stream\<close> (each a part or an array of parts), the error the stream fails with
  after them, if any, and the error \<open>response.result\<close> rejects with, if any.
\<close>

record chatResponse =
  cr_items :: "rpart list list"
  cr_streamError :: "thrown option"
  cr_resultError :: "thrown option"

section \<open>Context compaction (\<open>getHistoryWithSummarizationIfNeeded\<close>)\<close>

text \<open>
  A history entry: the request (its message, its variables, and the remaining fields,
  which the summary entry copies from the first summarized request), and the response
  parts.
\<close>

datatype responsePart = MarkdownContent string | ProgressMessage string | OtherProgress

record 'r historyRequest =
  req_message :: string
  req_variables :: "string list"
  req_rest :: 'r

record 'r historyEntry =
  he_request :: "'r historyRequest"
  he_response :: "responsePart list"

text \<open>The text parts of the items of a stream, concatenated in order.\<close>

fun rpartText :: "rpart \<Rightarrow> string" where
  "rpartText (RText v) = v"
| "rpartText _ = []"

text \<open>
  \<open>summarizeHistoryEntries\<close>.  \<open>summaryRequest\<close> stands for the \<open>sendChatRequest\<close> call
  on the two prompt messages, which are determined by the old entries and
  \<open>maxSummaryTokens\<close>.  The call may throw; iterating the stream may throw;
  \<open>await response.result\<close> may throw; otherwise the trimmed text is returned.
\<close>

definition summarizeHistoryEntries ::
  "('r historyEntry list \<Rightarrow> int \<Rightarrow> thrown + chatResponse)
     \<Rightarrow> 'r historyEntry list \<Rightarrow> int \<Rightarrow> thrown + string" where
  "summarizeHistoryEntries summaryRequest oldEntries maxSummaryTokens =
     (case summaryRequest oldEntries maxSummaryTokens of
        Inl e \<Rightarrow> Inl e
      | Inr response \<Rightarrow>
          (let summary = concat (map rpartText (concat (cr_items response))) in
           case cr_streamError response of
             Some e \<Rightarrow> Inl e
           | None \<Rightarrow>
               (case cr_resultError response of
                  Some e \<Rightarrow> Inl e
                | None \<Rightarrow> Inr (trim summary))))"

text \<open>
  \<open>Math.max(1, Math.ceil(history.length * 0.1))\<close>.  The double product \<open>n * 0.1\<close> is
  exactly \<open>n / 10\<close> when \<open>n\<close> is a multiple of 10 and lies strictly between the same
  two integers as \<open>n / 10\<close> otherwise, so the ceiling is that of the exact quotient.
\<close>

definition keepCountOf :: "nat \<Rightarrow> nat" where
  "keepCountOf n = max 1 ((n + 9) div 10)"

text \<open>\<open>Math.max(100, Math.floor(maxInputTokens * 0.1))\<close>\<close>

definition maxSummaryTokensOf :: "int \<Rightarrow> int" where
  "maxSummaryTokensOf maxInputTokens = max 100 (maxInputTokens div 10)"

definition summaryEntryOf :: "'r historyEntry \<Rightarrow> string \<Rightarrow> 'r historyEntry" where
  "summaryEntryOf firstOld summaryText =
     \<lparr>he_request = (he_request firstOld)
         \<lparr>req_message := ''[Earlier conversation summary]'', req_variables := []\<rparr>,
      he_response = [MarkdownContent summaryText]\<rparr>"

text \<open>
  \<open>getHistoryWithSummarizationIfNeeded\<close>.  \<open>cancelled\<close> is
  \<open>token.isCancellationRequested\<close> as read after the summary call has returned.  A throw
  of the summary call is not caught here.
\<close>

definition getHistoryWithSummarizationIfNeeded ::
  "('r historyEntry list \<Rightarrow> int \<Rightarrow> thrown + chatResponse) \<Rightarrow> bool
     \<Rightarrow> 'r historyEntry list \<Rightarrow> int \<Rightarrow> thrown + 'r historyEntry list" where
  "getHistoryWithSummarizationIfNeeded summaryRequest cancelled history maxInputTokens =
     (if length history \<le> 1 then Inr history
      else
        (let keepCount = keepCountOf (length history);
             recent = drop (length history - keepCount) history;
             oldEntries = take (length history - keepCount) history
         in if oldEntries = [] then Inr history
            else
              (case summarizeHistoryEntries summaryRequest oldEntries
                      (maxSummaryTokensOf maxInputTokens) of
                 Inl e \<Rightarrow> Inl e
               | Inr summaryText \<Rightarrow>
                   (if summaryText = [] \<or> cancelled then Inr history
                    else Inr (summaryEntryOf (hd oldEntries) summaryText # recent)))))"

section \<open>The turn around compaction (\<open>invoke\<close>)\<close>

text \<open>
  The part of \<open>invoke\<close> between building the messages and starting the agent loop.
  \<open>buildMessages\<close> and the provider's token counter are parameters.  The trigger
  \<open>totalTokens >= 0.9 * maxInputTokens\<close> compares an integer with a double product that
  is exact when it is an integer, so it is \<open>10 * totalTokens \<ge> 9 * maxInputTokens\<close>.
  The result is the history and messages the agent loop is started with, or the error
  thrown on the way.
\<close>

definition compactIfNeeded ::
  "('r historyEntry list \<Rightarrow> message list) \<Rightarrow> (message \<Rightarrow> thrown + int)
     \<Rightarrow> ('r historyEntry list \<Rightarrow> int \<Rightarrow> thrown + chatResponse) \<Rightarrow> bool
     \<Rightarrow> 'r historyEntry list \<Rightarrow> int \<Rightarrow> thrown + ('r historyEntry list \<times> message list)" where
  "compactIfNeeded buildMessages computeTokenLength summaryRequest cancelled history maxInputTokens =
     (let messages = buildMessages history;
          totalTokens = computeTotalTokenCount computeTokenLength messages
      in if 10 * totalTokens \<ge> 9 * maxInputTokens \<and> length history > 1 then
           (case getHistoryWithSummarizationIfNeeded summaryRequest cancelled history maxInputTokens of
              Inl e \<Rightarrow> Inl e
            | Inr historyToUse \<Rightarrow> Inr (historyToUse, buildMessages historyToUse))
         else Inr (history, messages))"

text \<open>
  How the turn ends: the agent loop is started on the messages, or the outer \<open>catch\<close>
  reports the error to the user (\<open>**Error calling model:** ...\<close>) and returns without
  starting the loop.
\<close>

datatype turn = AgentLoopStarted "message list" | ErrorReported thrown

definition invokeTurn ::
  "('r historyEntry list \<Rightarrow> message list) \<Rightarrow> (message \<Rightarrow> thrown + int)
     \<Rightarrow> ('r historyEntry list \<Rightarrow> int \<Rightarrow> thrown + chatResponse) \<Rightarrow> bool
     \<Rightarrow> 'r historyEntry list \<Rightarrow> int \<Rightarrow> turn" where
  "invokeTurn buildMessages computeTokenLength summaryRequest cancelled history maxInputTokens =
     (case compactIfNeeded buildMessages computeTokenLength summaryRequest cancelled history
             maxInputTokens of
        Inl e \<Rightarrow> ErrorReported e
      | Inr (historyToUse, messages) \<Rightarrow> AgentLoopStarted messages)"


subsection \<open>A sample turn\<close>

text \<open>
  Three history entries, a message builder giving one user message per entry, a token
  counter that counts 1000 tokens per message, and three behaviours of the summary call:
  a summary, no text at all, and a failing call.
\<close>

definition demoEntry :: "string \<Rightarrow> unit historyEntry" where
  "demoEntry m =
     \<lparr>he_request = \<lparr>req_message = m, req_variables = [], req_rest = ()\<rparr>,
      he_response = [MarkdownContent ''ok'']\<rparr>"

definition demoHistory :: "unit historyEntry list" where
  "demoHistory = [demoEntry ''one'', demoEntry ''two'', demoEntry ''three'']"

definition demoBuildMessages :: "unit historyEntry list \<Rightarrow> message list" where
  "demoBuildMessages h =
     map (\<lambda>e. \<lparr>role = User, content = [TextPart (req_message (he_request e))]\<rparr>) h"

definition demoTokenLength :: "message \<Rightarrow> thrown + int" where
  "demoTokenLength m = Inr 1000"

definition demoSummary :: "unit historyEntry list \<Rightarrow> int \<Rightarrow> thrown + chatResponse" where
  "demoSummary old maxTokens =
     Inr \<lparr>cr_items = [[RText ''Earlier: ''], [RText ''one, two.'']],
          cr_streamError = None, cr_resultError = None\<rparr>"

definition demoEmptySummary :: "unit historyEntry list \<Rightarrow> int \<Rightarrow> thrown + chatResponse" where
  "demoEmptySummary old maxTokens =
     Inr \<lparr>cr_items = [], cr_streamError = None, cr_resultError = None\<rparr>"

definition demoFailingSummary :: "unit historyEntry list \<Rightarrow> int \<Rightarrow> thrown + chatResponse" where
  "demoFailingSummary old maxTokens =
     Inl (ErrorObj ''Rate limit exceeded for OpenAI. Please try again in a few moments.'')"


section \<open>The agent loop (\<open>UnifiedAgent.run\<close>)\<close>

text \<open>
  The tool catalogue (\<open>getAvailableTools\<close>, \<open>formatToolsForLLM\<close>) and the log calls
  are left out: they are passed along or written and never read back by the loop.
\<close>

definition REPEATED_TOOL_CALL_THRESHOLD :: nat where
  "REPEATED_TOOL_CALL_THRESHOLD = 3"

definition REPEATED_TOOL_CALL_WINDOW :: nat where
  "REPEATED_TOOL_CALL_WINDOW = 6"

definition DEFAULT_MAX_ITERATIONS :: int where
  "DEFAULT_MAX_ITERATIONS = 25"

definition TASK_COMPLETE_SIGNAL :: string where
  "TASK_COMPLETE_SIGNAL = ''[TASK_COMPLETE]''"

text \<open>
  The constructor: \<open>Math.min(100, Math.max(1, maxIterations))\<close>, with the default
  parameter value when no argument is passed.
\<close>

definition maxIterationsOf :: "int option \<Rightarrow> nat" where
  "maxIterationsOf maxIterations =
     nat (min 100 (max 1 (case maxIterations of None \<Rightarrow> DEFAULT_MAX_ITERATIONS | Some n \<Rightarrow> n)))"

text \<open>What \<open>progress\<close> is called with.\<close>

datatype progress = MarkdownProgress string | ThinkingProgress string

record toolCall =
  tcName :: string
  tcCallId :: string
  tcParameters :: json

text \<open>The content items of a tool result: text, data (mime type, data), anything else.\<close>

datatype toolItem = ItemText string | ItemData string string | ItemOther

text \<open>
  The world around one run.  The run is sequential, so each external answer is indexed by
  its position in the run: \<open>responses n\<close> is what the \<open>n\<close>-th \<open>sendChatRequest\<close>
  (counting from 0) returns or throws, \<open>invokeTool n\<close> what the \<open>n\<close>-th tool
  invocation returns or throws for the call it is given, and \<open>cancelAt t\<close> and
  \<open>clock t\<close> what \<open>token.isCancellationRequested\<close> and \<open>Date.now()\<close> read when
  they are the \<open>t\<close>-th external read of the run.  \<open>stringify\<close> is \<open>JSON.stringify\<close>.
\<close>

record env =
  responses :: "nat \<Rightarrow> thrown + chatResponse"
  invokeTool :: "nat \<Rightarrow> toolCall \<Rightarrow> thrown + toolItem list"
  cancelAt :: "nat \<Rightarrow> bool"
  clock :: "nat \<Rightarrow> int"
  stringify :: "json \<Rightarrow> string"

text \<open>
  The variables of \<open>run\<close> that live across iterations, followed by a record of what
  the run has done so far: the \<open>progress\<close> calls, the conversation passed to each
  \<open>sendChatRequest\<close>, the calls passed to \<open>toolsService.invokeTool\<close>, and the number of
  external reads.
\<close>

record agentState =
  iterationCount :: nat
  consecutiveNoCompleteCount :: nat
  hasEverEmitted :: bool
  conversationMessages :: "message list"
  recentToolKeys :: "string list"
  progressLog :: "progress list"
  requests :: "message list list"
  invocations :: "toolCall list"
  ticks :: nat

text \<open>The variables of one iteration while its stream is consumed, with the run's
  \<open>hasEverEmitted\<close>, progress calls and read counter carried along.\<close>

record streamState =
  fullText :: string
  fullThinking :: string
  toolCalls :: "toolCall list"
  lastProgressUpdate :: int
  lastThinkingUpdate :: int
  lastEmittedDisplayLength :: nat
  lastEmittedThinkingLength :: nat
  ss_hasEverEmitted :: bool
  ss_progress :: "progress list"
  ss_ticks :: nat

text \<open>
  \<open>s.replace(/\s*\[TASK_COMPLETE\]\s*/g, '')\<close>: scanning from the left, a match starts
  at a position exactly when the longest run of white space from there is followed by the
  marker; it extends over the white space after the marker.
\<close>

function stripSignal :: "string \<Rightarrow> string" where
  "stripSignal [] = []"
| "stripSignal (c # cs) =
     (if startsWith (dropWhile isJsSpace (c # cs)) ''[TASK_COMPLETE]''
      then stripSignal (dropWhile isJsSpace (drop 15 (dropWhile isJsSpace (c # cs))))
      else c # stripSignal cs)"
  by pat_completeness auto
termination
proof (relation "measure length")
  show "wf (measure length)" by simp
next
  fix c :: char and cs :: string
  let ?rest = "dropWhile isJsSpace (c # cs)"
  assume "startsWith ?rest ''[TASK_COMPLETE]''"
  then have "take (length ''[TASK_COMPLETE]'') ?rest = ''[TASK_COMPLETE]''"
    unfolding startsWith_def .
  then have "length ''[TASK_COMPLETE]'' \<le> length ?rest"
    by (metis length_take min.cobounded1)
  then have "length (drop 15 ?rest) < length ?rest"
    by (simp del: dropWhile.simps)
  moreover have "length (dropWhile isJsSpace (drop 15 ?rest)) \<le> length (drop 15 ?rest)"
    by (rule length_dropWhile_le)
  moreover have "length ?rest \<le> length (c # cs)"
    by (rule length_dropWhile_le)
  ultimately show "(dropWhile isJsSpace (drop 15 ?rest), c # cs) \<in> measure length"
    by (simp del: dropWhile.simps)
next
  fix c :: char and cs :: string
  show "(cs, c # cs) \<in> measure length" by simp
qed

definition displayOf :: "string \<Rightarrow> string" where
  "displayOf s = trim (stripSignal s)"

text \<open>One part of a stream item.\<close>

fun handlePart :: "env \<Rightarrow> streamState \<Rightarrow> rpart \<Rightarrow> streamState" where
  "handlePart e st (RText v) =
     (let st1 = st\<lparr>fullText := fullText st @ v\<rparr>;
          displaySoFar = displayOf (fullText st1);
          delta = drop (lastEmittedDisplayLength st1) displaySoFar;
          now = clock e (ss_ticks st1);
          st2 = st1\<lparr>ss_ticks := Suc (ss_ticks st1)\<rparr>;
          throttleElapsed = (now - lastProgressUpdate st2 > 100)
      in if delta \<noteq> [] \<and> (throttleElapsed \<or> lastEmittedDisplayLength st2 = 0) then
           (let st3 = st2\<lparr>ss_progress := ss_progress st2 @ [MarkdownProgress delta],
                          lastEmittedDisplayLength := length displaySoFar,
                          ss_hasEverEmitted := True\<rparr>
            in if throttleElapsed then st3\<lparr>lastProgressUpdate := now\<rparr> else st3)
         else st2)"
| "handlePart e st (RThinking v) =
     (if (case v of ThinkStr s \<Rightarrow> s \<noteq> [] | ThinkArr ss \<Rightarrow> True) then
        (let chunk = (case v of ThinkStr s \<Rightarrow> s | ThinkArr ss \<Rightarrow> concat ss);
             st1 = st\<lparr>fullThinking := fullThinking st @ chunk\<rparr>;
             now = clock e (ss_ticks st1);
             st2 = st1\<lparr>ss_ticks := Suc (ss_ticks st1)\<rparr>;
             thinkingDelta = drop (lastEmittedThinkingLength st2) (fullThinking st2)
         in if thinkingDelta \<noteq> []
               \<and> (now - lastThinkingUpdate st2 > 100 \<or> lastEmittedThinkingLength st2 = 0) then
              st2\<lparr>ss_progress := ss_progress st2 @ [ThinkingProgress thinkingDelta],
                  lastEmittedThinkingLength := length (fullThinking st2),
                  lastThinkingUpdate := now\<rparr>
            else st2)
      else st)"
| "handlePart e st (RToolUse name callId parameters) =
     st\<lparr>toolCalls := toolCalls st
            @ [\<lparr>tcName = name, tcCallId = callId, tcParameters = parameters\<rparr>]\<rparr>"
| "handlePart e st ROther = st"

text \<open>
  \<open>for await (const part of response.stream)\<close>: the token is read before each item; a
  cancelled token breaks the loop.  The flag tells whether the loop was left by \<open>break\<close>.
\<close>

fun consumeItems :: "env \<Rightarrow> rpart list list \<Rightarrow> streamState \<Rightarrow> streamState \<times> bool" where
  "consumeItems e [] st = (st, False)"
| "consumeItems e (item # items) st =
     (let c = cancelAt e (ss_ticks st);
          st1 = st\<lparr>ss_ticks := Suc (ss_ticks st)\<rparr>
      in if c then (st1, True)
         else consumeItems e items (foldl (handlePart e) st1 item))"

text \<open>After the stream: the last thinking delta and the last text delta.\<close>

definition flushDeltas :: "streamState \<Rightarrow> streamState" where
  "flushDeltas st =
     (let finalThinkingDelta = drop (lastEmittedThinkingLength st) (fullThinking st);
          st1 = (if finalThinkingDelta \<noteq> []
                 then st\<lparr>ss_progress := ss_progress st @ [ThinkingProgress finalThinkingDelta]\<rparr>
                 else st);
          displayText = (if containsStr (fullText st1) TASK_COMPLETE_SIGNAL
                         then displayOf (fullText st1) else fullText st1);
          finalDelta = drop (lastEmittedDisplayLength st1) displayText
      in if finalDelta \<noteq> [] then
           st1\<lparr>ss_progress := ss_progress st1 @ [MarkdownProgress finalDelta],
               ss_hasEverEmitted := True\<rparr>
         else if length displayText > 0 \<and> lastEmittedDisplayLength st1 = 0 then
           st1\<lparr>ss_progress := ss_progress st1 @ [MarkdownProgress displayText],
               ss_hasEverEmitted := True\<rparr>
         else st1)"

text \<open>
  The first half of an iteration, from the \<open>Date.now()\<close> reads after
  \<open>sendChatRequest\<close> has returned to \<open>await response.result\<close>: it throws what the
  stream or the result throws, and otherwise gives the state of the iteration's variables.
\<close>

definition streamRound :: "env \<Rightarrow> agentState \<Rightarrow> chatResponse \<Rightarrow> (thrown \<times> streamState) + streamState" where
  "streamRound e s response =
     (let st1 = \<lparr>fullText = [], fullThinking = [], toolCalls = [],
                 lastProgressUpdate = clock e (ticks s),
                 lastThinkingUpdate = clock e (Suc (ticks s)),
                 lastEmittedDisplayLength = 0, lastEmittedThinkingLength = 0,
                 ss_hasEverEmitted = hasEverEmitted s,
                 ss_progress = progressLog s,
                 ss_ticks = Suc (Suc (ticks s))\<rparr>;
          (st2, broke) = consumeItems e (cr_items response) st1
      in case (if broke then None else cr_streamError response) of
           Some err \<Rightarrow> Inl (err, st2)
         | None \<Rightarrow>
             (let st3 = flushDeltas st2
              in case cr_resultError response of
                   Some err \<Rightarrow> Inl (err, st3)
                 | None \<Rightarrow> Inr st3))"

text \<open>\<open>`${tc.name}:${JSON.stringify(tc.parameters || {})}`\<close>\<close>

definition serializedParameters :: "env \<Rightarrow> toolCall \<Rightarrow> string" where
  "serializedParameters e tc =
     stringify e (if truthy (tcParameters tc) then tcParameters tc else JObj [])"

definition toolKey :: "env \<Rightarrow> toolCall \<Rightarrow> string" where
  "toolKey e tc = tcName tc @ '':'' @ serializedParameters e tc"

text \<open>The window after this round's keys are pushed: its last
  \<open>REPEATED_TOOL_CALL_WINDOW\<close> entries.\<close>

definition pushKeys :: "string list \<Rightarrow> string list \<Rightarrow> string list" where
  "pushKeys recent thisRoundKeys =
     (let pushed = recent @ thisRoundKeys
      in if length pushed > REPEATED_TOOL_CALL_WINDOW
         then drop (length pushed - REPEATED_TOOL_CALL_WINDOW) pushed
         else pushed)"

definition sameKeyCountOf :: "string list \<Rightarrow> string list \<Rightarrow> nat" where
  "sameKeyCountOf recent thisRoundKeys =
     (case thisRoundKeys of
        [] \<Rightarrow> 0
      | k # ks \<Rightarrow> length (filter (\<lambda>x. x = k) recent))"

text \<open>
  Strings are lists of UTF-16 code units, of which a \<open>char\<close> holds those below 256.  The
  one code unit outside that range in the fixed texts, U+2014, is given the otherwise
  unused \<open>char\<close> 0x97 to stand for it, so that lengths count it once.
\<close>

definition emDash :: string where
  "emDash = [CHR 0x97]"

text \<open>The content of a tool result: text items as text, image data as a placeholder text
  with the image set aside, anything else dropped.\<close>

fun formatItems :: "toolItem list \<Rightarrow> part list \<times> part list" where
  "formatItems [] = ([], [])"
| "formatItems (ItemText v # items) =
     (let (resultContent, images) = formatItems items in (TextPart v # resultContent, images))"
| "formatItems (ItemData mimeType dat # items) =
     (let (resultContent, images) = formatItems items
      in if startsWith mimeType ''image/''
         then (TextPart (''Image file '' @ emDash @ '' see the image in the next user message for vision.'')
                 # resultContent,
               ImagePart mimeType dat # images)
         else (resultContent, images))"
| "formatItems (ItemOther # items) = formatItems items"

text \<open>
  \<open>`Error executing tool: ${error.message || error}`\<close>, evaluated inside the \<open>catch\<close>
  block.  Reading \<open>.message\<close> of \<open>null\<close> or \<open>undefined\<close> raises a \<open>TypeError\<close> there
  (its message is the engine's), which nothing catches.
\<close>

fun toolErrorText :: "thrown \<Rightarrow> thrown + string" where
  "toolErrorText (ErrorObj m) =
     Inr (''Error executing tool: '' @ (if m \<noteq> [] then m else ''Error''))"
| "toolErrorText (OtherValue s) = Inr (''Error executing tool: '' @ s)"
| "toolErrorText (NullishValue s) =
     Inl (ErrorObj (''Cannot read properties of '' @ s @ '' (reading message)''))"

text \<open>
  \<open>for (const toolCall of toolCalls)\<close>: every call is passed to \<open>invokeTool\<close>; a throw
  becomes an error result, unless building the error text throws itself, which ends the
  loop and the run.  The accumulator holds the invocations made so far in the run, the
  tool results and the images of this round; on a throw the invocations made are kept.
\<close>

fun executeTools ::
  "env \<Rightarrow> toolCall list \<Rightarrow> toolCall list \<times> part list \<times> part list
     \<Rightarrow> (thrown \<times> toolCall list) + (toolCall list \<times> part list \<times> part list)" where
  "executeTools e [] acc = Inr acc"
| "executeTools e (tc # tcs) (invoked, toolResults, imagePartsForVision) =
     (case invokeTool e (length invoked) tc of
        Inr items \<Rightarrow>
          (let (resultContent, images) = formatItems items;
               resultContent' = (if resultContent = []
                                 then [TextPart ''Tool executed successfully (no output)'']
                                 else resultContent)
           in executeTools e tcs
                (invoked @ [tc],
                 toolResults @ [ToolResultPart (tcCallId tc) resultContent' False],
                 imagePartsForVision @ images))
      | Inl err \<Rightarrow>
          (case toolErrorText err of
             Inl typeError \<Rightarrow> Inl (typeError, invoked @ [tc])
           | Inr errorText \<Rightarrow>
               executeTools e tcs
                 (invoked @ [tc],
                  toolResults @ [ToolResultPart (tcCallId tc) [TextPart errorText] True],
                  imagePartsForVision)))"

definition nudgeMessage :: message where
  "nudgeMessage =
     \<lparr>role = User,
      content = [TextPart (''Use the available tools to complete the task, or if you have given your final answer, end your next message with ''
                    @ TASK_COMPLETE_SIGNAL @ ''.'')]\<rparr>"

definition repetitionNote :: progress where
  "repetitionNote =
     MarkdownProgress ''\<newline>*Stopped: the same tool was called repeatedly with no progress. If the task is done, you can start a new message.*\<newline>''"

definition noResponseNote :: progress where
  "noResponseNote =
     MarkdownProgress ''The model did not return a response. Please try again or try with another model.''"

definition iterationLimitNote :: progress where
  "iterationLimitNote =
     MarkdownProgress ''\<newline>\<newline>*Note: Reached maximum number of iterations. The task may be incomplete.*''"

text \<open>How one pass through the loop body ends.\<close>

datatype step = Continue agentState | Break agentState | Throw thrown agentState

text \<open>The state of the run with what the stream phase left behind.\<close>

definition afterStream :: "agentState \<Rightarrow> streamState \<Rightarrow> agentState" where
  "afterStream s st =
     s\<lparr>hasEverEmitted := ss_hasEverEmitted st, progressLog := ss_progress st, ticks := ss_ticks st\<rparr>"

text \<open>
  The second half of an iteration, from the assistant message to the end of the body.
\<close>

definition decideRound :: "env \<Rightarrow> agentState \<Rightarrow> streamState \<Rightarrow> step" where
  "decideRound e s st =
     (let assistantMessageContent =
            (if fullText st \<noteq> [] then [TextPart (fullText st)] else [])
            @ map (\<lambda>tc. ToolUsePart (tcName tc) (tcCallId tc) (tcParameters tc)) (toolCalls st);
          s1 = (if assistantMessageContent \<noteq> []
                then s\<lparr>conversationMessages := conversationMessages s
                          @ [\<lparr>role = Assistant, content = assistantMessageContent\<rparr>]\<rparr>
                else s)
      in if toolCalls st = [] then
           (if containsStr (fullText st) TASK_COMPLETE_SIGNAL then Break s1
            else
              (let s2 = s1\<lparr>consecutiveNoCompleteCount := Suc (consecutiveNoCompleteCount s1)\<rparr>
               in if consecutiveNoCompleteCount s2 \<ge> 2 then Break s2
                  else Continue (s2\<lparr>conversationMessages := conversationMessages s2 @ [nudgeMessage]\<rparr>)))
         else
           (let s2 = s1\<lparr>consecutiveNoCompleteCount := 0\<rparr>;
                thisRoundKeys = map (toolKey e) (toolCalls st);
                s3 = s2\<lparr>recentToolKeys := pushKeys (recentToolKeys s2) thisRoundKeys\<rparr>;
                sameKeyCount = sameKeyCountOf (recentToolKeys s3) thisRoundKeys
            in if sameKeyCount \<ge> REPEATED_TOOL_CALL_THRESHOLD then
                 Break (s3\<lparr>progressLog := progressLog s3 @ [repetitionNote]\<rparr>)
               else
                 (case executeTools e (toolCalls st) (invocations s3, [], []) of
                    Inl (err, invoked) \<Rightarrow> Throw err (s3\<lparr>invocations := invoked\<rparr>)
                  | Inr (invoked, toolResults, imagePartsForVision) \<Rightarrow>
                      (let s4 = s3\<lparr>invocations := invoked\<rparr>;
                           s5 = (if toolResults \<noteq> []
                                 then s4\<lparr>conversationMessages := conversationMessages s4
                                           @ [\<lparr>role = User, content = toolResults\<rparr>]\<rparr>
                                 else s4);
                           s6 = (if imagePartsForVision \<noteq> []
                                 then s5\<lparr>conversationMessages := conversationMessages s5
                                           @ [\<lparr>role = User,
                                               content = TextPart (''Image(s) from readFile '' @ emDash
                                                                    @ '' view below for vision:'')
                                                         # imagePartsForVision\<rparr>]\<rparr>
                                 else s5)
                       in Continue s6))))"

text \<open>
  The loop body up to \<open>await response.result\<close>.  \<open>s\<close> is the state once the loop
  condition has been evaluated; the body counts the iteration and sends the conversation.
  The result is what was thrown, or the state of the run together with the iteration's
  variables.
\<close>

definition requestPhase :: "env \<Rightarrow> agentState \<Rightarrow> (thrown \<times> agentState) + (agentState \<times> streamState)" where
  "requestPhase e s =
     (let s1 = s\<lparr>iterationCount := Suc (iterationCount s)\<rparr>;
          answer = responses e (length (requests s1));
          s2 = s1\<lparr>requests := requests s1 @ [conversationMessages s1]\<rparr>
      in case answer of
           Inl err \<Rightarrow> Inl (err, s2)
         | Inr response \<Rightarrow>
             (case streamRound e s2 response of
                Inl (err, st) \<Rightarrow> Inl (err, afterStream s2 st)
              | Inr st \<Rightarrow> Inr (afterStream s2 st, st)))"

text \<open>The whole loop body.\<close>

definition iteration :: "env \<Rightarrow> agentState \<Rightarrow> step" where
  "iteration e s =
     (case requestPhase e s of
        Inl (err, s') \<Rightarrow> Throw err s'
      | Inr (s', st) \<Rightarrow> decideRound e s' st)"

text \<open>
  \<open>while (iterationCount < this.MAX_ITERATIONS && !token.isCancellationRequested)\<close>.
  The token is read only when the first conjunct holds.  The result is the state the loop
  is left in, or what was thrown out of it.
\<close>

function whileLoop :: "env \<Rightarrow> nat \<Rightarrow> agentState \<Rightarrow> (thrown \<times> agentState) + agentState" where
  "whileLoop e MAX_ITERATIONS s =
     (if iterationCount s < MAX_ITERATIONS then
        (if \<not> cancelAt e (ticks s) then
           (case iteration e (s\<lparr>ticks := Suc (ticks s)\<rparr>) of
              Continue s' \<Rightarrow> whileLoop e MAX_ITERATIONS s'
            | Break s' \<Rightarrow> Inr s'
            | Throw err s' \<Rightarrow> Inl (err, s'))
         else Inr (s\<lparr>ticks := Suc (ticks s)\<rparr>))
      else Inr s)"
  by pat_completeness auto
termination
proof (relation "measure (\<lambda>(e, MAX_ITERATIONS, s). MAX_ITERATIONS - iterationCount s)")
  show "wf (measure (\<lambda>(e, MAX_ITERATIONS, s). MAX_ITERATIONS - iterationCount s))" by simp
next
  fix e :: env and MAX_ITERATIONS :: nat and s s' :: agentState
  assume lt: "iterationCount s < MAX_ITERATIONS"
    and it: "iteration e (s\<lparr>ticks := Suc (ticks s)\<rparr>) = Continue s'"
  have decide: "iterationCount t' = iterationCount t"
    if "decideRound e t st = Continue t'" for t t' st
    using that
    by (auto simp: decideRound_def Let_def split: if_splits prod.splits sum.splits)
  from it have "iterationCount s' = Suc (iterationCount s)"
    by (auto simp: iteration_def requestPhase_def Let_def afterStream_def
             split: sum.splits prod.splits dest!: decide)
  with lt show "((e, MAX_ITERATIONS, s'), (e, MAX_ITERATIONS, s))
                  \<in> measure (\<lambda>(e, MAX_ITERATIONS, s). MAX_ITERATIONS - iterationCount s)"
    by simp
qed

text \<open>After the loop: the note for the iteration limit or for a model that stayed silent.\<close>

definition postLoop :: "nat \<Rightarrow> agentState \<Rightarrow> agentState" where
  "postLoop MAX_ITERATIONS s =
     (if iterationCount s \<ge> MAX_ITERATIONS \<or> consecutiveNoCompleteCount s \<ge> 2 then
        (if consecutiveNoCompleteCount s \<ge> 2 \<and> \<not> hasEverEmitted s then
           s\<lparr>progressLog := progressLog s @ [noResponseNote]\<rparr>
         else if iterationCount s \<ge> MAX_ITERATIONS then
           s\<lparr>progressLog := progressLog s @ [iterationLimitNote]\<rparr>
         else s)
      else s)"

definition initialState :: "message list \<Rightarrow> agentState" where
  "initialState messages =
     \<lparr>iterationCount = 0, consecutiveNoCompleteCount = 0, hasEverEmitted = False,
      conversationMessages = messages, recentToolKeys = [],
      progressLog = [], requests = [], invocations = [], ticks = 0\<rparr>"

text \<open>
  \<open>run\<close>, for an agent constructed with \<open>maxIterations\<close>: the final state when the
  promise fulfils, or the thrown value and the state at that point when it rejects.
\<close>

definition run :: "env \<Rightarrow> int option \<Rightarrow> message list \<Rightarrow> (thrown \<times> agentState) + agentState" where
  "run e maxIterations messages =
     (case whileLoop e (maxIterationsOf maxIterations) (initialState messages) of
        Inl thrownAt \<Rightarrow> Inl thrownAt
      | Inr s \<Rightarrow> Inr (postLoop (maxIterationsOf maxIterations) s))"


subsection \<open>Reading a run iteration by iteration\<close>

text \<open>
  The state at the head of the loop after \<open>n\<close> further iterations that ended by
  continuing, if the run gets that far.
\<close>

definition oneRound :: "env \<Rightarrow> nat \<Rightarrow> agentState \<Rightarrow> step option" where
  "oneRound e MAX_ITERATIONS s =
     (if iterationCount s < MAX_ITERATIONS \<and> \<not> cancelAt e (ticks s)
      then Some (iteration e (s\<lparr>ticks := Suc (ticks s)\<rparr>))
      else None)"

fun stateAt :: "env \<Rightarrow> nat \<Rightarrow> agentState \<Rightarrow> nat \<Rightarrow> agentState option" where
  "stateAt e MAX_ITERATIONS s 0 = Some s"
| "stateAt e MAX_ITERATIONS s (Suc n) =
     (case oneRound e MAX_ITERATIONS s of
        Some (Continue s') \<Rightarrow> stateAt e MAX_ITERATIONS s' n
      | _ \<Rightarrow> None)"

text \<open>
  The iteration's variables at the end of its stream phase, for the iteration that starts
  at loop head \<open>s\<close>: \<open>None\<close> when the loop is not entered there or the iteration throws
  before \<open>await response.result\<close> has returned.
\<close>

definition roundStream :: "env \<Rightarrow> nat \<Rightarrow> agentState \<Rightarrow> streamState option" where
  "roundStream e MAX_ITERATIONS s =
     (if iterationCount s < MAX_ITERATIONS \<and> \<not> cancelAt e (ticks s) then
        (case requestPhase e (s\<lparr>ticks := Suc (ticks s)\<rparr>) of
           Inl thrownAt \<Rightarrow> None
         | Inr (s', st) \<Rightarrow> Some st)
      else None)"

text \<open>The assistant message an iteration appends for its text and tool calls.\<close>

definition assistantMessages :: "streamState \<Rightarrow> message list" where
  "assistantMessages st =
     (if fullText st \<noteq> [] \<or> toolCalls st \<noteq> []
      then [\<lparr>role = Assistant,
             content = (if fullText st \<noteq> [] then [TextPart (fullText st)] else [])
                       @ map (\<lambda>tc. ToolUsePart (tcName tc) (tcCallId tc) (tcParameters tc))
                           (toolCalls st)\<rparr>]
      else [])"

text \<open>The tool calls a response carries, in order.\<close>

fun partCalls :: "rpart \<Rightarrow> toolCall list" where
  "partCalls (RToolUse name callId parameters) =
     [\<lparr>tcName = name, tcCallId = callId, tcParameters = parameters\<rparr>]"
| "partCalls _ = []"

definition responseCalls :: "thrown + chatResponse \<Rightarrow> toolCall list" where
  "responseCalls answer =
     (case answer of
        Inl err \<Rightarrow> []
      | Inr response \<Rightarrow> concat (map partCalls (concat (cr_items response))))"

text \<open>A response that arrives whole: neither the request, nor the stream, nor the result
  throws.\<close>

definition responseOk :: "thrown + chatResponse \<Rightarrow> bool" where
  "responseOk answer =
     (case answer of
        Inl err \<Rightarrow> False
      | Inr response \<Rightarrow> cr_streamError response = None \<and> cr_resultError response = None)"

text \<open>
  The repetition guard stays quiet over the next \<open>k\<close> responses, starting with response
  \<open>n\<close> and window \<open>recent\<close>: in no round does the key of the round's first call occur
  \<open>REPEATED_TOOL_CALL_THRESHOLD\<close> times in the window.
\<close>

fun guardQuiet :: "env \<Rightarrow> nat \<Rightarrow> nat \<Rightarrow> string list \<Rightarrow> bool" where
  "guardQuiet e 0 n recent = True"
| "guardQuiet e (Suc k) n recent =
     (sameKeyCountOf (pushKeys recent (map (toolKey e) (responseCalls (responses e n))))
                     (map (toolKey e) (responseCalls (responses e n)))
        < REPEATED_TOOL_CALL_THRESHOLD
      \<and> guardQuiet e k (Suc n)
          (pushKeys recent (map (toolKey e) (responseCalls (responses e n)))))"

text \<open>Every one of the first \<open>k\<close> responses arrives whole and carries a tool call.\<close>

fun alwaysCalls :: "env \<Rightarrow> nat \<Rightarrow> bool" where
  "alwaysCalls e 0 = True"
| "alwaysCalls e (Suc k) =
     (responseOk (responses e k) \<and> responseCalls (responses e k) \<noteq> [] \<and> alwaysCalls e k)"

subsection \<open>Sample runs\<close>

text \<open>
  A tool service that lists one file, a clock that stands still, a token that is never
  cancelled, and \<open>JSON.stringify\<close> on the parameter values that occur.
\<close>

definition demoStringify :: "json \<Rightarrow> string" where
  "demoStringify j =
     (if j = JObj [(''path'', JStr ''.'')] then ''{\"path\":\".\"}''
      else if j = JObj [(''path'', JStr ''src'')] then ''{\"path\":\"src\"}''
      else ''{}'')"

definition demoTool :: "nat \<Rightarrow> toolCall \<Rightarrow> thrown + toolItem list" where
  "demoTool n tc = Inr [ItemText ''a.txt'']"

definition okResponse :: "rpart list list \<Rightarrow> thrown + chatResponse" where
  "okResponse items = Inr \<lparr>cr_items = items, cr_streamError = None, cr_resultError = None\<rparr>"

definition listCall :: rpart where
  "listCall = RToolUse ''listDirectory'' ''call_1'' (JObj [(''path'', JStr ''.'')])"

definition listSrcCall :: rpart where
  "listSrcCall = RToolUse ''listDirectory'' ''call_2'' (JObj [(''path'', JStr ''src'')])"

definition demoEnv :: "(nat \<Rightarrow> thrown + chatResponse) \<Rightarrow> env" where
  "demoEnv rs = \<lparr>responses = rs, invokeTool = demoTool, cancelAt = (\<lambda>t. False),
                  clock = (\<lambda>t. 0), stringify = demoStringify\<rparr>"

text \<open>A model that asks for the same listing on every iteration.\<close>

definition sameCallEnv :: env where
  "sameCallEnv = demoEnv (\<lambda>n. okResponse [[listCall]])"

text \<open>A model that alternates between two listings.\<close>

definition alternatingEnv :: env where
  "alternatingEnv = demoEnv (\<lambda>n. if even n then okResponse [[listCall]] else okResponse [[listSrcCall]])"

text \<open>A model that answers in plain text, without tool call and without marker.\<close>

definition plainTextEnv :: env where
  "plainTextEnv = demoEnv (\<lambda>n. okResponse [[RText ''hello'']])"

definition demoMessages :: "message list" where
  "demoMessages = [\<lparr>role = User, content = [TextPart ''list files'']\<rparr>]"


text \<open>The state a run ends in, whether it returns or throws.\<close>

definition finalState :: "(thrown \<times> agentState) + agentState \<Rightarrow> agentState" where
  "finalState r = (case r of Inl (err, s) \<Rightarrow> s | Inr s \<Rightarrow> s)"

section \<open>Properties of token accounting\<close>

lemma fallbackLoop_sum: "fallbackLoop msgs tot = tot + sum_list (map charEstimate msgs)"
  by (induction msgs arbitrary: tot) auto

lemma providerLoop_ok:
  "\<forall>m \<in> set msgs. \<exists>n. f m = Inr n \<Longrightarrow>
   providerLoop f msgs tot = Inr (tot + sum_list (map (\<lambda>m. projr (f m)) msgs))"
  by (induction msgs arbitrary: tot) (auto split: sum.splits)

lemma providerLoop_fail:
  "\<forall>m \<in> set pre. \<exists>n. f m = Inr n \<Longrightarrow> f bad = Inl e \<Longrightarrow>
   providerLoop f (pre @ bad # post) tot
     = Inl (e, tot + sum_list (map (\<lambda>m. projr (f m)) pre))"
  by (induction pre arbitrary: tot) (auto split: sum.splits)

text \<open>
  When the provider's counter succeeds on every message the result is the sum of its
  counts.
\<close>

lemma computeTotalTokenCount_all_ok:
  "\<forall>m \<in> set msgs. \<exists>n. f m = Inr n \<Longrightarrow>
   computeTotalTokenCount f msgs = sum_list (map (\<lambda>m. projr (f m)) msgs)"
  by (simp add: computeTotalTokenCount_def providerLoop_ok)

text \<open>
  When the counter throws on some message, the counts already added for the messages
  before it stay in \<open>total\<close>: the result is their sum plus the character estimate of
  every message.
\<close>

lemma computeTotalTokenCount_failure:
  "\<forall>m \<in> set pre. \<exists>n. f m = Inr n \<Longrightarrow> f bad = Inl e \<Longrightarrow>
   computeTotalTokenCount f (pre @ bad # post)
     = sum_list (map (\<lambda>m. projr (f m)) pre) + sum_list (map charEstimate (pre @ bad # post))"
  by (simp add: computeTotalTokenCount_def providerLoop_fail fallbackLoop_sum)

text \<open>
  C9.  The claim: the result is the sum of the provider's counts, and on a failure of the
  counter it is exactly the character estimate, with no provider count mixed in.  The code
  does not reset \<open>total\<close> before the fallback loop.  With two messages, the first counted
  as 10 tokens by the provider and the second making the counter throw, the result is
  \<open>10 + 2 + 1 = 13\<close>, while the character estimate of the two messages is \<open>2 + 1 = 3\<close>.
\<close>

theorem C9_fallback_mixes_partial_counts:
  "computeTotalTokenCount
     (\<lambda>m. if content m = [TextPart ''hello''] then Inr 10 else Inl (ErrorObj ''boom''))
     [\<lparr>role = User, content = [TextPart ''hello'']\<rparr>,
      \<lparr>role = Assistant, content = [TextPart ''hi'']\<rparr>] = 13
   \<and> sum_list (map charEstimate
     [\<lparr>role = User, content = [TextPart ''hello'']\<rparr>,
      \<lparr>role = Assistant, content = [TextPart ''hi'']\<rparr>]) = 3"
  by (simp add: computeTotalTokenCount_def charEstimate_def messageText_def)


section \<open>Properties of the stream adapter\<close>

lemma splitNl_nonempty [simp]: "splitNl s \<noteq> []"
  by (induction s) (auto split: list.splits)

lemma map_of_applyDelta_other:
  "deltaIndex d \<noteq> idx \<Longrightarrow> map_of (applyDelta accs d) idx = map_of accs idx"
  by (simp add: applyDelta_def Let_def update_conv')

lemma argsAt_applyDelta:
  "argsAt (applyDelta accs d) idx =
     argsAt accs idx @ concat (fragmentsAt idx [d])"
  by (auto simp: argsAt_def applyDelta_def Let_def update_conv' fragmentsAt_def
           split: option.splits)

lemma fragmentsAt_Cons: "fragmentsAt idx (d # ds) = fragmentsAt idx [d] @ fragmentsAt idx ds"
  by (simp add: fragmentsAt_def)

lemma fragmentsAt_append: "fragmentsAt idx (xs @ ys) = fragmentsAt idx xs @ fragmentsAt idx ys"
  by (simp add: fragmentsAt_def)

lemma argsAt_foldl:
  "argsAt (foldl applyDelta accs ds) idx = argsAt accs idx @ concat (fragmentsAt idx ds)"
proof (induction ds arbitrary: accs)
  case Nil
  show ?case by (simp add: fragmentsAt_def)
next
  case (Cons d ds)
  show ?case
    using Cons.IH [of "applyDelta accs d"]
    by (simp add: argsAt_applyDelta fragmentsAt_Cons [of idx d ds])
qed

lemma accumulated_handleChunk:
  "accumulated (handleChunk st ch) =
     foldl applyDelta (accumulated st) (case delta_tool_calls ch of None \<Rightarrow> [] | Some tcs \<Rightarrow> tcs)"
  by (simp add: handleChunk_def Let_def split: option.splits)

lemma buffer_handleChunk: "buffer (handleChunk st ch) = buffer st"
  by (simp add: handleChunk_def Let_def split: option.splits)

lemma accumulated_processLine:
  "accumulated (processLine pd st line) = foldl applyDelta (accumulated st) (lineDeltas pd line)"
  by (simp add: processLine_def lineDeltas_def Let_def accumulated_handleChunk split: option.splits)

lemma buffer_processLine: "buffer (processLine pd st line) = buffer st"
  by (simp add: processLine_def Let_def buffer_handleChunk split: option.splits)

lemma foldl_processLine:
  "accumulated (foldl (processLine pd) st ls)
     = foldl applyDelta (accumulated st) (concat (map (lineDeltas pd) ls))
   \<and> buffer (foldl (processLine pd) st ls) = buffer st"
  by (induction ls arbitrary: st) (simp_all add: accumulated_processLine buffer_processLine)

lemma onData_state:
  "accumulated (onData pd st chunk)
     = foldl applyDelta (accumulated st)
         (concat (map (lineDeltas pd) (butlast (splitNl (buffer st @ chunk)))))
   \<and> buffer (onData pd st chunk) = last (splitNl (buffer st @ chunk))"
  by (simp add: onData_def Let_def foldl_processLine)

lemma splitNl_Cons_other:
  "c \<noteq> CHR 0x0A \<Longrightarrow> splitNl (c # cs) = (c # hd (splitNl cs)) # tl (splitNl cs)"
  by (cases "splitNl cs") auto

lemma splitNl_app:
  "splitNl (a @ b) = butlast (splitNl a) @ (last (splitNl a) @ hd (splitNl b)) # tl (splitNl b)"
proof (induction a)
  case Nil
  show ?case by simp
next
  case (Cons c a)
  show ?case
  proof (cases "c = CHR 0x0A")
    case True
    with Cons show ?thesis by simp
  next
    case False
    show ?thesis
    proof (cases "tl (splitNl a) = []")
      case True
      then have "splitNl a = [hd (splitNl a)]" by (cases "splitNl a") auto
      then have "butlast (splitNl a) = []" "last (splitNl a) = hd (splitNl a)"
        by (metis butlast.simps(2), metis last.simps)
      with Cons False True show ?thesis
        by (simp add: splitNl_Cons_other del: splitNl.simps(2))
    next
      case False2: False
      then obtain l l2 ls where sa: "splitNl a = l # l2 # ls"
        by (cases "splitNl a"; cases "tl (splitNl a)") auto
      with Cons False show ?thesis
        by (simp add: splitNl_Cons_other del: splitNl.simps(2))
    qed
  qed
qed

lemma splitNl_no_newline: "CHR 0x0A \<notin> set l \<Longrightarrow> splitNl l = [l]"
  by (induction l) auto

lemma splitNl_pieces: "l \<in> set (splitNl s) \<Longrightarrow> CHR 0x0A \<notin> set l"
  by (induction s arbitrary: l) (auto split: if_splits list.splits)

lemma splitNl_last: "splitNl (last (splitNl a)) = [last (splitNl a)]"
  by (rule splitNl_no_newline) (meson last_in_set splitNl_nonempty splitNl_pieces)

lemma splitNl_append:
  "butlast (splitNl (a @ b)) = butlast (splitNl a) @ butlast (splitNl (last (splitNl a) @ b))
   \<and> last (splitNl (a @ b)) = last (splitNl (last (splitNl a) @ b))"
proof -
  let ?r = "(last (splitNl a) @ hd (splitNl b)) # tl (splitNl b)"
  have 1: "splitNl (a @ b) = butlast (splitNl a) @ ?r" by (rule splitNl_app)
  have 2: "splitNl (last (splitNl a) @ b) = ?r"
    using splitNl_app [of "last (splitNl a)" b] by (simp add: splitNl_last)
  show ?thesis unfolding 1 2 by (simp add: butlast_append)
qed

lemma foldl_onData_state:
  "CHR 0x0A \<notin> set (buffer st) \<Longrightarrow>
   accumulated (foldl (onData pd) st chunks)
     = foldl applyDelta (accumulated st)
         (concat (map (lineDeltas pd) (butlast (splitNl (buffer st @ concat chunks)))))
   \<and> buffer (foldl (onData pd) st chunks) = last (splitNl (buffer st @ concat chunks))"
proof (induction chunks arbitrary: st)
  case Nil
  then show ?case by (simp add: splitNl_no_newline)
next
  case (Cons c cs)
  have nl: "CHR 0x0A \<notin> set (buffer (onData pd st c))"
    using onData_state [of pd st c]
    by (metis last_in_set splitNl_nonempty splitNl_pieces)
  show ?case
    using Cons.IH [OF nl] onData_state [of pd st c]
      splitNl_append [of "buffer st @ c" "concat cs"]
    by simp
qed

lemma accumulated_stream:
  "accumulated (foldl (onData pd) initListen chunks) = foldl applyDelta [] (streamDeltas pd chunks)"
  using foldl_onData_state [of initListen pd chunks]
  by (simp add: initListen_def streamDeltas_def completeLines_def)

lemma argsAt_stream:
  "argsAt (accumulated (foldl (onData pd) initListen chunks)) idx
     = concat (fragmentsAt idx (streamDeltas pd chunks))"
  unfolding accumulated_stream argsAt_foldl by (simp add: argsAt_def)

lemma emitted_handleChunk:
  "\<forall>e \<in> set (emitted st). \<not> isToolUse e \<Longrightarrow> \<forall>e \<in> set (emitted (handleChunk st ch)). \<not> isToolUse e"
  by (auto simp: handleChunk_def Let_def split: option.splits)

lemma emitted_processLine:
  "\<forall>e \<in> set (emitted st). \<not> isToolUse e \<Longrightarrow> \<forall>e \<in> set (emitted (processLine pd st line)). \<not> isToolUse e"
  using emitted_handleChunk [of st]
  by (simp add: processLine_def Let_def split: option.splits)

lemma emitted_foldl_processLine:
  "\<forall>e \<in> set (emitted st). \<not> isToolUse e \<Longrightarrow>
   \<forall>e \<in> set (emitted (foldl (processLine pd) st ls)). \<not> isToolUse e"
proof (induction ls arbitrary: st)
  case Nil
  then show ?case by simp
next
  case (Cons l ls)
  from Cons.prems have "\<forall>e \<in> set (emitted (processLine pd st l)). \<not> isToolUse e"
    by (rule emitted_processLine)
  then show ?case using Cons.IH by simp
qed

lemma emitted_onData:
  "\<forall>e \<in> set (emitted st). \<not> isToolUse e \<Longrightarrow> \<forall>e \<in> set (emitted (onData pd st chunk)). \<not> isToolUse e"
  unfolding onData_def Let_def
  by (rule emitted_foldl_processLine) simp

lemma emitted_foldl_onData:
  "\<forall>e \<in> set (emitted st). \<not> isToolUse e \<Longrightarrow>
   \<forall>e \<in> set (emitted (foldl (onData pd) st chunks)). \<not> isToolUse e"
proof (induction chunks arbitrary: st)
  case Nil
  then show ?case by simp
next
  case (Cons c cs)
  from Cons.prems have "\<forall>e \<in> set (emitted (onData pd st c)). \<not> isToolUse e"
    by (rule emitted_onData)
  then show ?case using Cons.IH by simp
qed

lemma finalizeOne_cases:
  "e \<in> set (finalizeOne pj acc) \<Longrightarrow>
   truthyStr (acc_id acc) \<and> truthyStr (acc_name acc) \<and>
   (\<exists>p. e = EvToolUse (the (acc_name acc)) (the (acc_id acc)) p \<and>
        ((acc_args acc \<noteq> [] \<and> pj (acc_args acc) = Some p)
         \<or> ((acc_args acc = [] \<or> pj (acc_args acc) = None) \<and> p = JObj [])))"
  by (auto simp: finalizeOne_def split: if_splits option.splits)

lemma onEnd_cases:
  "e \<in> set (onEnd pj accs) \<Longrightarrow>
   \<exists>idx acc. map_of accs idx = Some acc \<and> e \<in> set (finalizeOne pj acc)"
  unfolding onEnd_def
  by (auto split: option.splits) metis

lemma onEnd_member:
  assumes "map_of accs idx = Some acc" and "e \<in> set (finalizeOne pj acc)"
  shows "e \<in> set (onEnd pj accs)"
proof -
  from assms(1) have "(idx, acc) \<in> set accs" by (rule map_of_SomeD)
  then have "idx \<in> set (sort (map fst accs))" by force
  moreover have "e \<in> set (case map_of accs idx of None \<Rightarrow> [] | Some a \<Rightarrow> finalizeOne pj a)"
    using assms by simp
  ultimately show ?thesis
    unfolding onEnd_def set_concat set_map by blast
qed

lemma concat_map_filter_nil:
  "g k = [] \<Longrightarrow> concat (map g (filter (\<lambda>x. x \<noteq> k) xs)) = concat (map g xs)"
  by (induction xs) auto

lemma onEnd_delete:
  assumes "(case map_of accs idx of None \<Rightarrow> [] | Some a \<Rightarrow> finalizeOne pj a) = []"
  shows "onEnd pj (AList.delete idx accs) = onEnd pj accs"
proof -
  let ?g = "\<lambda>k. case map_of accs k of None \<Rightarrow> [] | Some a \<Rightarrow> finalizeOne pj a"
  let ?g' = "\<lambda>k. case map_of (AList.delete idx accs) k of None \<Rightarrow> [] | Some a \<Rightarrow> finalizeOne pj a"
  have keys: "sort (map fst (AList.delete idx accs)) = filter (\<lambda>x. x \<noteq> idx) (sort (map fst accs))"
  proof -
    have "(\<lambda>p::int \<times> toolAcc. idx \<noteq> fst p) = (\<lambda>p. fst p \<noteq> idx)" by auto
    then show ?thesis
      by (simp add: AList.delete_eq filter_sort filter_map comp_def case_prod_unfold)
  qed
  have "map ?g' (filter (\<lambda>x. x \<noteq> idx) (sort (map fst accs)))
        = map ?g (filter (\<lambda>x. x \<noteq> idx) (sort (map fst accs)))"
    by (rule map_cong) (auto simp: delete_conv')
  then have "onEnd pj (AList.delete idx accs)
        = concat (map ?g (filter (\<lambda>x. x \<noteq> idx) (sort (map fst accs))))"
    unfolding onEnd_def keys by (rule arg_cong)
  also have "\<dots> = concat (map ?g (sort (map fst accs)))"
    using assms by (rule concat_map_filter_nil)
  finally show ?thesis by (simp add: onEnd_def)
qed

lemma idAt_foldl:
  "\<forall>d \<in> set ds. deltaIndex d = idx \<longrightarrow> \<not> truthyStr (tc_id d) \<Longrightarrow>
   map_of (foldl applyDelta accs ds) idx = Some acc \<Longrightarrow>
   acc_id acc = (case map_of accs idx of None \<Rightarrow> None | Some a \<Rightarrow> acc_id a)"
proof (induction ds arbitrary: accs)
  case Nil
  then show ?case by simp
next
  case (Cons d ds)
  have "(case map_of (applyDelta accs d) idx of None \<Rightarrow> None | Some a \<Rightarrow> acc_id a)
        = (case map_of accs idx of None \<Rightarrow> None | Some a \<Rightarrow> acc_id a)"
    using Cons.prems(1)
    by (auto simp: applyDelta_def Let_def update_conv' split: option.splits)
  with Cons.IH [of "applyDelta accs d"] Cons.prems show ?case by simp
qed

lemma nameAt_foldl:
  "\<forall>d \<in> set ds. deltaIndex d = idx \<longrightarrow> \<not> truthyStr (tc_fname d) \<Longrightarrow>
   map_of (foldl applyDelta accs ds) idx = Some acc \<Longrightarrow>
   acc_name acc = (case map_of accs idx of None \<Rightarrow> None | Some a \<Rightarrow> acc_name a)"
proof (induction ds arbitrary: accs)
  case Nil
  then show ?case by simp
next
  case (Cons d ds)
  have "(case map_of (applyDelta accs d) idx of None \<Rightarrow> None | Some a \<Rightarrow> acc_name a)
        = (case map_of accs idx of None \<Rightarrow> None | Some a \<Rightarrow> acc_name a)"
    using Cons.prems(1)
    by (auto simp: applyDelta_def Let_def update_conv' split: option.splits)
  with Cons.IH [of "applyDelta accs d"] Cons.prems show ?case by simp
qed

text \<open>
  C10.  When the tool-call deltas of a stream never supply a call id for an index, or never
  supply a function name for it, the accumulated call of that index is dropped silently at
  stream end: the events emitted are those of the same accumulator map without that index,
  and the promise resolves.  \<open>_callLocalModel\<close> finalizes with the same \<open>onEnd\<close> code.
\<close>

theorem C10_incomplete_call_discarded:
  assumes "(\<forall>d \<in> set (streamDeltas pd chunks). deltaIndex d = idx \<longrightarrow> \<not> truthyStr (tc_id d))
         \<or> (\<forall>d \<in> set (streamDeltas pd chunks). deltaIndex d = idx \<longrightarrow> \<not> truthyStr (tc_fname d))"
  shows "listenOpenAI pd pj chunks StreamEnd
           = (emitted (foldl (onData pd) initListen chunks)
                @ onEnd pj (AList.delete idx (accumulated (foldl (onData pd) initListen chunks))),
              Resolved)"
proof -
  let ?accs = "accumulated (foldl (onData pd) initListen chunks)"
  have "(case map_of ?accs idx of None \<Rightarrow> [] | Some a \<Rightarrow> finalizeOne pj a) = []"
  proof (cases "map_of ?accs idx")
    case None
    then show ?thesis by simp
  next
    case (Some acc)
    then have m: "map_of (foldl applyDelta [] (streamDeltas pd chunks)) idx = Some acc"
      by (simp add: accumulated_stream)
    from assms have "acc_id acc = None \<or> acc_name acc = None"
      using idAt_foldl [OF _ m] nameAt_foldl [OF _ m] by auto
    then have "finalizeOne pj acc = []" by (auto simp: finalizeOne_def)
    with Some show ?thesis by simp
  qed
  then have "onEnd pj (AList.delete idx ?accs) = onEnd pj ?accs" by (rule onEnd_delete)
  then show ?thesis by (simp add: listenOpenAI_def Let_def)
qed

text \<open>
  C4.  For a tool call that has received a call id and a name, whose argument fragments
  concatenate, in arrival order, to a non-empty text that \<open>JSON.parse\<close> accepts, the
  \<open>tool_use\<close> event emitted at stream end carries exactly the parsed value of that
  concatenation, however the fragments were split over lines and network chunks and
  interleaved with other indices.
\<close>

theorem C4_parameters_are_parsed_concatenation:
  assumes "map_of (accumulated (foldl (onData pd) initListen chunks)) idx = Some acc"
    and "truthyStr (acc_id acc)" and "truthyStr (acc_name acc)"
    and "concat (fragmentsAt idx (streamDeltas pd chunks)) \<noteq> []"
    and "pj (concat (fragmentsAt idx (streamDeltas pd chunks))) = Some v"
  shows "finalizeOne pj acc = [EvToolUse (the (acc_name acc)) (the (acc_id acc)) v]
       \<and> EvToolUse (the (acc_name acc)) (the (acc_id acc)) v
           \<in> set (fst (listenOpenAI pd pj chunks StreamEnd))"
proof -
  have "acc_args acc = concat (fragmentsAt idx (streamDeltas pd chunks))"
    using argsAt_stream [of pd chunks idx] assms(1) by (simp add: argsAt_def)
  with assms have f: "finalizeOne pj acc = [EvToolUse (the (acc_name acc)) (the (acc_id acc)) v]"
    by (simp add: finalizeOne_def)
  then have "EvToolUse (the (acc_name acc)) (the (acc_id acc)) v
               \<in> set (onEnd pj (accumulated (foldl (onData pd) initListen chunks)))"
    using onEnd_member [OF assms(1), of _ pj] by simp
  with f show ?thesis by (simp add: listenOpenAI_def Let_def)
qed

lemma idOf_snoc:
  "idOf idx (ds @ [d]) = (if deltaIndex d = idx \<and> truthyStr (tc_id d) then tc_id d else idOf idx ds)"
  by (simp add: idOf_def)

lemma nameOf_snoc:
  "nameOf idx (ds @ [d]) = (if deltaIndex d = idx \<and> truthyStr (tc_fname d) then tc_fname d else nameOf idx ds)"
  by (simp add: nameOf_def)

lemma fragmentsAt_snoc:
  "concat (fragmentsAt idx (ds @ [d]))
     = concat (fragmentsAt idx ds)
       @ (if deltaIndex d = idx then (case tc_fargs d of None \<Rightarrow> [] | Some a \<Rightarrow> a) else [])"
  by (simp add: fragmentsAt_def split: option.splits)

lemma absent_index:
  "idx \<notin> deltaIndex ` set ds \<Longrightarrow>
   idOf idx ds = None \<and> nameOf idx ds = None \<and> concat (fragmentsAt idx ds) = []"
proof (induction ds rule: rev_induct)
  case Nil
  show ?case by (simp add: idOf_def nameOf_def fragmentsAt_def)
next
  case (snoc d ds)
  then show ?case by (auto simp: idOf_snoc nameOf_snoc fragmentsAt_snoc)
qed

lemma idOf_truthy: "idOf idx ds = Some i \<Longrightarrow> i \<noteq> []"
  by (induction ds rule: rev_induct) (auto simp: idOf_snoc idOf_def split: if_splits)

lemma nameOf_truthy: "nameOf idx ds = Some n \<Longrightarrow> n \<noteq> []"
  by (induction ds rule: rev_induct) (auto simp: nameOf_snoc nameOf_def split: if_splits)

lemma entry_foldl:
  "map_of (foldl applyDelta [] ds) idx =
     (if idx \<in> deltaIndex ` set ds
      then Some \<lparr>acc_id = idOf idx ds, acc_name = nameOf idx ds,
                 acc_args = concat (fragmentsAt idx ds)\<rparr>
      else None)"
proof (induction ds rule: rev_induct)
  case Nil
  show ?case by simp
next
  case (snoc d ds)
  show ?case
  proof (cases "deltaIndex d = idx")
    case False
    with snoc show ?thesis
      by (simp add: map_of_applyDelta_other idOf_snoc nameOf_snoc fragmentsAt_snoc)
  next
    case True
    show ?thesis
    proof (cases "idx \<in> deltaIndex ` set ds")
      case False
      with absent_index [OF False] snoc True show ?thesis
        by (auto simp: applyDelta_def Let_def update_conv' idOf_snoc nameOf_snoc fragmentsAt_snoc
                 split: option.splits)
    next
      case present: True
      with snoc True show ?thesis
        by (auto simp: applyDelta_def Let_def update_conv' idOf_snoc nameOf_snoc fragmentsAt_snoc
                 split: option.splits)
    qed
  qed
qed

lemma keys_foldl:
  "distinct (map fst (foldl applyDelta [] ds))
   \<and> set (map fst (foldl applyDelta [] ds)) = deltaIndex ` set ds"
proof (induction ds rule: rev_induct)
  case Nil
  show ?case by simp
next
  case (snoc d ds)
  then show ?case
    by (auto simp: applyDelta_def Let_def distinct_update dom_update)
qed

lemma sorted_keys:
  "sort (map fst (foldl applyDelta [] ds)) = sort (remdups (map deltaIndex ds))"
proof -
  have "sort (map fst (foldl applyDelta [] ds))
          = sorted_list_of_set (set (map fst (foldl applyDelta [] ds)))"
    using keys_foldl [of ds] by (metis distinct_remdups_id sorted_list_of_set_sort_remdups)
  also have "\<dots> = sorted_list_of_set (set (map deltaIndex ds))"
    using keys_foldl [of ds] by simp
  also have "\<dots> = sort (remdups (map deltaIndex ds))"
    by (rule sorted_list_of_set_sort_remdups)
  finally show ?thesis .
qed

lemma finalize_expected:
  assumes "idx \<in> deltaIndex ` set ds"
  shows "(case map_of (foldl applyDelta [] ds) idx of
            None \<Rightarrow> [] | Some acc \<Rightarrow> finalizeOne pj acc)
         = expectedCall pj ds idx"
proof -
  have t1: "truthyStr (idOf idx ds) = (idOf idx ds \<noteq> None)"
    using idOf_truthy [of idx ds] by (cases "idOf idx ds") auto
  have t2: "truthyStr (nameOf idx ds) = (nameOf idx ds \<noteq> None)"
    using nameOf_truthy [of idx ds] by (cases "nameOf idx ds") auto
  show ?thesis
    using assms t1 t2
    by (auto simp: entry_foldl finalizeOne_def expectedCall_def parametersOf_def
             split: option.splits)
qed

lemma onEnd_expected:
  "onEnd pj (foldl applyDelta [] ds) = expectedCalls pj ds"
proof -
  have "map (\<lambda>idx. case map_of (foldl applyDelta [] ds) idx of
                      None \<Rightarrow> [] | Some acc \<Rightarrow> finalizeOne pj acc)
            (sort (remdups (map deltaIndex ds)))
        = map (expectedCall pj ds) (sort (remdups (map deltaIndex ds)))"
    by (rule map_cong) (auto simp: finalize_expected)
  then show ?thesis
    unfolding onEnd_def expectedCalls_def sorted_keys by (rule arg_cong)
qed

text \<open>
  C5 (amended).  No \<open>tool_use\<close> event is emitted while data is still arriving, and none
  when the stream ends in an error.  At stream end the events emitted are exactly the tool
  calls the stream's deltas amount to: one per index that was given a call id and a name,
  in ascending order of index, each carrying the parsed value of the index's complete
  argument text when that text is not empty and parses, and the empty object \<open>{}\<close> when
  it is empty or does not parse; the raw argument text itself is never passed on.
\<close>

theorem C5_tool_use_only_at_stream_end:
  "(\<forall>e \<in> set (emitted (foldl (onData pd) initListen chunks)). \<not> isToolUse e)
   \<and> (\<forall>e \<in> set (fst (listenOpenAI pd pj chunks (StreamError err))). \<not> isToolUse e)
   \<and> fst (listenOpenAI pd pj chunks StreamEnd)
       = emitted (foldl (onData pd) initListen chunks)
         @ expectedCalls pj (streamDeltas pd chunks)"
proof -
  have mid: "\<forall>e \<in> set (emitted (foldl (onData pd) initListen chunks)). \<not> isToolUse e"
    by (rule emitted_foldl_onData) (simp add: initListen_def)
  have "onEnd pj (accumulated (foldl (onData pd) initListen chunks))
          = expectedCalls pj (streamDeltas pd chunks)"
    by (simp add: accumulated_stream onEnd_expected)
  with mid show ?thesis by (simp add: listenOpenAI_def Let_def)
qed

subsection \<open>The sample streams\<close>

lemmas stream_eval =
  listenOpenAI_def onData_def initListen_def Let_def processLine_def trim_def isJsSpace_def
  startsWith_def demoParseData_def handleChunk_def applyDelta_def deltaIndex_def onEnd_def
  finalizeOne_def demoParseJson_def streamDeltas_def completeLines_def lineDeltas_def
  fragmentsAt_def

lemma demo_state:
  "foldl (onData demoParseData) initListen demoChunks
     = \<lparr>buffer = [],
        accumulated = [(0, \<lparr>acc_id = Some ''call_1'', acc_name = Some ''listDirectory'',
                             acc_args = ''[1,2]''\<rparr>)],
        emitted = []\<rparr>"
  by (simp add: demoChunks_def stream_eval)

lemma demo_deltas:
  "streamDeltas demoParseData demoChunks
     = [\<lparr>tc_index = Some 0, tc_id = Some ''call_1'', tc_fname = Some ''listDirectory'',
          tc_fargs = Some ''[1''\<rparr>,
        \<lparr>tc_index = Some 0, tc_id = None, tc_fname = None, tc_fargs = Some '',2]''\<rparr>]"
  by (simp add: demoChunks_def stream_eval)

lemma demo_cut_result:
  "listenOpenAI demoParseData demoParseJson demoCutChunks StreamEnd
     = ([EvToolUse ''listDirectory'' ''call_1'' (JObj [])], Resolved)"
  by (simp add: demoCutChunks_def demoChunks_def stream_eval)

lemma demo_cut_deltas:
  "streamDeltas demoParseData demoCutChunks
     = [\<lparr>tc_index = Some 0, tc_id = Some ''call_1'', tc_fname = Some ''listDirectory'',
          tc_fargs = Some ''[1''\<rparr>]"
  by (simp add: demoCutChunks_def demoChunks_def stream_eval)

lemma demo_noid_deltas:
  "streamDeltas demoParseData demoNoIdChunks
     = [\<lparr>tc_index = Some 0, tc_id = Some ''call_1'', tc_fname = Some ''listDirectory'',
          tc_fargs = Some ''[1''\<rparr>,
        \<lparr>tc_index = Some 0, tc_id = None, tc_fname = None, tc_fargs = Some '',2]''\<rparr>,
        \<lparr>tc_index = Some 1, tc_id = None, tc_fname = Some ''readFile'', tc_fargs = Some ''{}''\<rparr>]"
  by (simp add: demoNoIdChunks_def demoChunks_def stream_eval)

lemma demo_noid_result:
  "listenOpenAI demoParseData demoParseJson demoNoIdChunks StreamEnd
     = ([EvToolUse ''listDirectory'' ''call_1'' (JArr [JNum 1, JNum 2])], Resolved)"
  by (simp add: demoNoIdChunks_def demoChunks_def stream_eval)

theorem C4_witness:
  "EvToolUse ''listDirectory'' ''call_1'' (JArr [JNum 1, JNum 2])
     \<in> set (fst (listenOpenAI demoParseData demoParseJson demoChunks StreamEnd))"
proof -
  let ?acc = "\<lparr>acc_id = Some ''call_1'', acc_name = Some ''listDirectory'', acc_args = ''[1,2]''\<rparr>"
  have 1: "map_of (accumulated (foldl (onData demoParseData) initListen demoChunks)) 0 = Some ?acc"
    by (simp add: demo_state)
  have 2: "truthyStr (acc_id ?acc)" and 3: "truthyStr (acc_name ?acc)" by simp_all
  have 4: "concat (fragmentsAt 0 (streamDeltas demoParseData demoChunks)) \<noteq> []"
    by (simp add: demo_deltas fragmentsAt_def deltaIndex_def)
  have 5: "demoParseJson (concat (fragmentsAt 0 (streamDeltas demoParseData demoChunks)))
             = Some (JArr [JNum 1, JNum 2])"
    by (simp add: demo_deltas fragmentsAt_def deltaIndex_def demoParseJson_def)
  show ?thesis
    using C4_parameters_are_parsed_concatenation
            [of demoParseData demoChunks 0 ?acc demoParseJson "JArr [JNum 1, JNum 2]"] 1 2 3 4 5
    by simp
qed

text \<open>
  C5, as stated, fails: the stream cut off after its first chunk leaves the argument text
  \<open>[1\<close>, which does not parse, and the call is emitted all the same, with \<open>{}\<close>.
\<close>

theorem C5_counterexample:
  "EvToolUse ''listDirectory'' ''call_1'' (JObj [])
     \<in> set (fst (listenOpenAI demoParseData demoParseJson demoCutChunks StreamEnd))
   \<and> concat (fragmentsAt 0 (streamDeltas demoParseData demoCutChunks)) = ''[1''
   \<and> demoParseJson ''[1'' = None"
  by (simp add: demo_cut_result demo_cut_deltas fragmentsAt_def deltaIndex_def demoParseJson_def)

lemma demo_text_state:
  "emitted (foldl (onData demoParseData) initListen demoTextChunks) = [EvText ''Hi'']"
  by (simp add: demoTextChunks_def demoChunks_def stream_eval)

lemma demo_text_calls:
  "expectedCalls demoParseJson (streamDeltas demoParseData demoTextChunks)
     = [EvToolUse ''listDirectory'' ''call_1'' (JArr [JNum 1, JNum 2])]"
  by (simp add: demoTextChunks_def demoChunks_def stream_eval expectedCalls_def expectedCall_def
        idOf_def nameOf_def parametersOf_def)

theorem C5_witness:
  "\<not> isToolUse (EvText ''Hi'')
   \<and> fst (listenOpenAI demoParseData demoParseJson demoTextChunks StreamEnd)
       = [EvText ''Hi'', EvToolUse ''listDirectory'' ''call_1'' (JArr [JNum 1, JNum 2])]"
  using C5_tool_use_only_at_stream_end [of demoParseData demoTextChunks demoParseJson]
  by (simp add: demo_text_state demo_text_calls)

theorem C10_witness:
  "listenOpenAI demoParseData demoParseJson demoNoIdChunks StreamEnd
       = (emitted (foldl (onData demoParseData) initListen demoNoIdChunks)
            @ onEnd demoParseJson
                (AList.delete 1 (accumulated (foldl (onData demoParseData) initListen demoNoIdChunks))),
          Resolved)"
proof -
  have h: "\<forall>d \<in> set (streamDeltas demoParseData demoNoIdChunks). deltaIndex d = 1 \<longrightarrow> \<not> truthyStr (tc_id d)"
    by (simp add: demo_noid_deltas deltaIndex_def)
  from C10_incomplete_call_discarded [OF disjI1 [OF h], of demoParseJson] show ?thesis .
qed


section \<open>Properties of the provider dispatch\<close>








section \<open>Properties of context compaction\<close>

lemma keepCountOf_ge2: "2 \<le> n \<Longrightarrow> keepCountOf n = (n + 9) div 10 \<and> keepCountOf n < n"
  by (auto simp: keepCountOf_def max_def)

lemma getHistory_success:
  assumes "2 \<le> length history"
    and "summarizeHistoryEntries sr (take (length history - keepCountOf (length history)) history)
           (maxSummaryTokensOf maxIn) = Inr summaryText"
    and "summaryText \<noteq> []" and "\<not> cancelled"
  shows "getHistoryWithSummarizationIfNeeded sr cancelled history maxIn
           = Inr (summaryEntryOf (hd history) summaryText
                    # drop (length history - keepCountOf (length history)) history)"
proof -
  from assms(1) have k: "keepCountOf (length history) < length history"
    by (simp add: keepCountOf_ge2)
  then have ne: "take (length history - keepCountOf (length history)) history \<noteq> []"
    by auto
  have h: "hd (take (length history - keepCountOf (length history)) history) = hd history"
    using k by (cases history) (auto simp: take_Cons')
  from assms ne h show ?thesis
    by (simp add: getHistoryWithSummarizationIfNeeded_def Let_def)
qed

lemma getHistory_unchanged:
  assumes "summarizeHistoryEntries sr (take (length history - keepCountOf (length history)) history)
           (maxSummaryTokensOf maxIn) = Inr summaryText"
    and "summaryText = [] \<or> cancelled"
  shows "getHistoryWithSummarizationIfNeeded sr cancelled history maxIn = Inr history"
  using assms by (auto simp: getHistoryWithSummarizationIfNeeded_def Let_def)

text \<open>
  C7 (amended).  For a history of at least two entries at or above the 90% threshold,
  when the summary call returns a non-empty text and cancellation has not been requested,
  compaction yields the summary entry followed by the most recent
  \<open>max 1 (ceil (0.1 * length))\<close> entries, \<open>ceil (0.1 * length) + 1\<close> entries in all.
\<close>

theorem C7_compacted_length:
  assumes "10 * computeTotalTokenCount ctl (bm history) \<ge> 9 * maxIn"
    and "2 \<le> length history"
    and "summarizeHistoryEntries sr (take (length history - keepCountOf (length history)) history)
           (maxSummaryTokensOf maxIn) = Inr summaryText"
    and "summaryText \<noteq> []" and "\<not> cancelled"
  shows "\<exists>h. compactIfNeeded bm ctl sr cancelled history maxIn = Inr (h, bm h)
           \<and> h = summaryEntryOf (hd history) summaryText
                  # drop (length history - max 1 ((length history + 9) div 10)) history
           \<and> length h = (length history + 9) div 10 + 1"
proof -
  let ?h = "summaryEntryOf (hd history) summaryText
              # drop (length history - keepCountOf (length history)) history"
  have g: "getHistoryWithSummarizationIfNeeded sr cancelled history maxIn = Inr ?h"
    using assms(2-5) by (rule getHistory_success)
  have c: "compactIfNeeded bm ctl sr cancelled history maxIn = Inr (?h, bm ?h)"
    using assms(1,2) g by (simp add: compactIfNeeded_def Let_def)
  have l: "length ?h = (length history + 9) div 10 + 1"
    using keepCountOf_ge2 [OF assms(2)] by simp
  from c l show ?thesis by (simp add: keepCountOf_def)
qed

text \<open>
  C8 (amended).  When the summary call returns with empty output, or cancellation is
  observed once it has returned, the compaction step returns the original history
  unchanged and the turn goes on to the agent loop with the messages built from it.
\<close>

theorem C8_empty_or_cancelled_keeps_history:
  assumes "summarizeHistoryEntries sr (take (length history - keepCountOf (length history)) history)
           (maxSummaryTokensOf maxIn) = Inr summaryText"
    and "summaryText = [] \<or> cancelled"
  shows "getHistoryWithSummarizationIfNeeded sr cancelled history maxIn = Inr history
       \<and> compactIfNeeded bm ctl sr cancelled history maxIn = Inr (history, bm history)
       \<and> invokeTurn bm ctl sr cancelled history maxIn = AgentLoopStarted (bm history)"
proof -
  have g: "getHistoryWithSummarizationIfNeeded sr cancelled history maxIn = Inr history"
    using assms by (rule getHistory_unchanged)
  then have c: "compactIfNeeded bm ctl sr cancelled history maxIn = Inr (history, bm history)"
    by (simp add: compactIfNeeded_def Let_def)
  with g show ?thesis by (simp add: invokeTurn_def)
qed

lemmas turn_eval =
  compactIfNeeded_def invokeTurn_def getHistoryWithSummarizationIfNeeded_def Let_def
  summarizeHistoryEntries_def keepCountOf_def maxSummaryTokensOf_def demoHistory_def
  demoBuildMessages_def demoTokenLength_def computeTotalTokenCount_def demoEntry_def
  summaryEntryOf_def trim_def isJsSpace_def

text \<open>
  C7, as stated, fails: three entries over the threshold and a summary call that returns no
  text leave the history at three entries, not \<open>ceil 0.3 + 1 = 2\<close>.
\<close>

theorem C7_counterexample:
  "compactIfNeeded demoBuildMessages demoTokenLength demoEmptySummary False demoHistory 100
     = Inr (demoHistory, demoBuildMessages demoHistory)
   \<and> length demoHistory = 3
   \<and> 10 * computeTotalTokenCount demoTokenLength (demoBuildMessages demoHistory) \<ge> 9 * 100"
  by (simp add: turn_eval demoEmptySummary_def)

text \<open>
  C8, as stated, fails: a summary call that throws makes the compaction step throw, and the
  turn ends in the error report of the outer \<open>catch\<close> without starting the agent loop.
\<close>

theorem C8_counterexample:
  "getHistoryWithSummarizationIfNeeded demoFailingSummary False demoHistory 100
     = Inl (ErrorObj ''Rate limit exceeded for OpenAI. Please try again in a few moments.'')
   \<and> invokeTurn demoBuildMessages demoTokenLength demoFailingSummary False demoHistory 100
     = ErrorReported (ErrorObj ''Rate limit exceeded for OpenAI. Please try again in a few moments.'')"
  by (simp add: turn_eval demoFailingSummary_def)

lemma demo_summary_text:
  "summarizeHistoryEntries demoSummary (take (length demoHistory - keepCountOf (length demoHistory)) demoHistory)
     (maxSummaryTokensOf 100) = Inr ''Earlier: one, two.''"
  by (simp add: summarizeHistoryEntries_def demoSummary_def trim_def isJsSpace_def)

lemma demo_empty_summary_text:
  "summarizeHistoryEntries demoEmptySummary (take (length demoHistory - keepCountOf (length demoHistory)) demoHistory)
     (maxSummaryTokensOf 100) = Inr []"
  by (simp add: summarizeHistoryEntries_def demoEmptySummary_def trim_def)

theorem C7_witness:
  "compactIfNeeded demoBuildMessages demoTokenLength demoSummary False demoHistory 100
     = Inr ([summaryEntryOf (demoEntry ''one'') ''Earlier: one, two.'', demoEntry ''three''],
            demoBuildMessages [summaryEntryOf (demoEntry ''one'') ''Earlier: one, two.'', demoEntry ''three''])"
proof -
  have 1: "10 * computeTotalTokenCount demoTokenLength (demoBuildMessages demoHistory) \<ge> 9 * 100"
    by (simp add: turn_eval)
  have 2: "2 \<le> length demoHistory" by (simp add: demoHistory_def)
  have 4: "''Earlier: one, two.'' \<noteq> []" by simp
  have 5: "\<not> False" by simp
  from C7_compacted_length [where bm = demoBuildMessages and ctl = demoTokenLength
      and history = demoHistory and maxIn = 100 and sr = demoSummary
      and summaryText = "''Earlier: one, two.''" and cancelled = False, OF 1 2 demo_summary_text 4 5]
  show ?thesis by (auto simp: demoHistory_def)
qed

theorem C8_witness:
  "invokeTurn demoBuildMessages demoTokenLength demoEmptySummary False demoHistory 100
     = AgentLoopStarted (demoBuildMessages demoHistory)"
  using C8_empty_or_cancelled_keeps_history [where bm = demoBuildMessages and ctl = demoTokenLength
      and history = demoHistory and maxIn = 100 and sr = demoEmptySummary
      and summaryText = "[]" and cancelled = False, OF demo_empty_summary_text]
  by simp



section \<open>Properties of the agent loop\<close>


lemma whileLoop_Continue:
  "oneRound e M s = Some (Continue s') \<Longrightarrow> whileLoop e M s = whileLoop e M s'"
  by (subst whileLoop.simps) (auto simp: oneRound_def split: if_splits)

lemma whileLoop_Break:
  "oneRound e M s = Some (Break s') \<Longrightarrow> whileLoop e M s = Inr s'"
  by (subst whileLoop.simps) (auto simp: oneRound_def split: if_splits)

lemma whileLoop_Throw:
  "oneRound e M s = Some (Throw err s') \<Longrightarrow> whileLoop e M s = Inl (err, s')"
  by (subst whileLoop.simps) (auto simp: oneRound_def split: if_splits)

lemma whileLoop_limit:
  "\<not> iterationCount s < M \<Longrightarrow> whileLoop e M s = Inr s"
  by (subst whileLoop.simps) simp

lemma whileLoop_cancelled:
  "iterationCount s < M \<Longrightarrow> cancelAt e (ticks s) \<Longrightarrow>
   whileLoop e M s = Inr (s\<lparr>ticks := Suc (ticks s)\<rparr>)"
  by (subst whileLoop.simps) simp

lemma stateAt_whileLoop:
  "stateAt e M s n = Some s' \<Longrightarrow> whileLoop e M s = whileLoop e M s'"
proof (induction n arbitrary: s)
  case 0
  then show ?case by simp
next
  case (Suc n)
  from Suc.prems obtain s1 where r: "oneRound e M s = Some (Continue s1)"
    and t: "stateAt e M s1 n = Some s'"
    by (auto split: option.splits step.splits)
  from r have "whileLoop e M s = whileLoop e M s1" by (rule whileLoop_Continue)
  with Suc.IH [OF t] show ?case by simp
qed

lemma stateAt_step:
  "stateAt e M s n = Some s1 \<Longrightarrow> stateAt e M s (Suc n) = Some s2 \<Longrightarrow>
   oneRound e M s1 = Some (Continue s2)"
proof (induction n arbitrary: s)
  case 0
  then show ?case by (auto split: option.splits step.splits)
next
  case (Suc n)
  from Suc.prems(1) obtain t where r: "oneRound e M s = Some (Continue t)"
    and t1: "stateAt e M t n = Some s1"
    by (auto split: option.splits step.splits)
  from Suc.prems(2) r have t2: "stateAt e M t (Suc n) = Some s2" by simp
  from Suc.IH [OF t1 t2] show ?case .
qed

lemma requestPhase_fields:
  assumes "requestPhase e s = Inr (s', st)"
  shows "iterationCount s' = Suc (iterationCount s)"
    and "requests s' = requests s @ [conversationMessages s]"
    and "conversationMessages s' = conversationMessages s"
    and "recentToolKeys s' = recentToolKeys s"
    and "invocations s' = invocations s"
    and "consecutiveNoCompleteCount s' = consecutiveNoCompleteCount s"
    and "progressLog s' = ss_progress st"
  using assms
  by (auto simp: requestPhase_def Let_def afterStream_def split: sum.splits prod.splits)

lemma roundStream_oneRound:
  assumes "roundStream e M s = Some st"
  shows "\<exists>s'. requestPhase e (s\<lparr>ticks := Suc (ticks s)\<rparr>) = Inr (s', st)
            \<and> oneRound e M s = Some (decideRound e s' st)"
  using assms
  by (auto simp: roundStream_def oneRound_def iteration_def split: if_splits sum.splits)


lemma executeTools_invoked:
  "executeTools e tcs (invoked, rs, imgs) = Inr (invoked', rs', imgs') \<Longrightarrow>
   invoked' = invoked @ tcs"
  by (induction tcs arbitrary: invoked rs imgs) (fastforce split: sum.splits prod.splits)+

lemma toolErrorText_ok:
  "\<forall>v. err \<noteq> NullishValue v \<Longrightarrow> \<exists>t. toolErrorText err = Inr t"
  by (cases err) auto

lemma executeTools_ok:
  "\<forall>n tc v. invokeTool e n tc \<noteq> Inl (NullishValue v) \<Longrightarrow>
   \<exists>r. executeTools e tcs acc = Inr r"
proof (induction tcs arbitrary: acc)
  case Nil
  show ?case by (cases acc) auto
next
  case (Cons tc tcs)
  obtain invoked rs imgs where acc: "acc = (invoked, rs, imgs)" by (cases acc) auto
  show ?case
  proof (cases "invokeTool e (length invoked) tc")
    case (Inr items)
    with Cons.IH [OF Cons.prems] acc show ?thesis
      by (simp add: Let_def split: prod.splits)
  next
    case (Inl err)
    with Cons.prems have "\<forall>v. err \<noteq> NullishValue v" by metis
    then obtain t where "toolErrorText err = Inr t" using toolErrorText_ok by blast
    with Cons.IH [OF Cons.prems] acc Inl show ?thesis by simp
  qed
qed

lemma decideRound_calls_Break:
  assumes "toolCalls st \<noteq> []"
    and "REPEATED_TOOL_CALL_THRESHOLD
           \<le> sameKeyCountOf (pushKeys (recentToolKeys s) (map (toolKey e) (toolCalls st)))
                (map (toolKey e) (toolCalls st))"
  shows "decideRound e s st
           = Break (s\<lparr>conversationMessages := conversationMessages s @ assistantMessages st,
                      consecutiveNoCompleteCount := 0,
                      recentToolKeys := pushKeys (recentToolKeys s) (map (toolKey e) (toolCalls st)),
                      progressLog := progressLog s @ [repetitionNote]\<rparr>)"
  using assms by (simp add: decideRound_def Let_def assistantMessages_def)

lemma decideRound_calls_Continue:
  assumes "toolCalls st \<noteq> []"
    and "sameKeyCountOf (pushKeys (recentToolKeys s) (map (toolKey e) (toolCalls st)))
                (map (toolKey e) (toolCalls st)) < REPEATED_TOOL_CALL_THRESHOLD"
    and "\<forall>n tc v. invokeTool e n tc \<noteq> Inl (NullishValue v)"
  shows "\<exists>s'. decideRound e s st = Continue s'
            \<and> recentToolKeys s' = pushKeys (recentToolKeys s) (map (toolKey e) (toolCalls st))
            \<and> consecutiveNoCompleteCount s' = 0
            \<and> iterationCount s' = iterationCount s
            \<and> requests s' = requests s
            \<and> ticks s' = ticks s
            \<and> invocations s' = invocations s @ toolCalls st"
proof -
  obtain invoked toolResults imgs
    where ex: "executeTools e (toolCalls st) (invocations s, [], []) = Inr (invoked, toolResults, imgs)"
    using executeTools_ok [OF assms(3), of "toolCalls st" "(invocations s, [], [])"]
    by (metis prod_cases3)
  have "invoked = invocations s @ toolCalls st"
    using executeTools_invoked [OF ex] .
  with assms(1,2) ex show ?thesis
    by (simp add: decideRound_def Let_def)
qed

lemma decideRound_calls_window:
  assumes "toolCalls st \<noteq> []" and "decideRound e s st = Continue s'"
  shows "recentToolKeys s' = pushKeys (recentToolKeys s) (map (toolKey e) (toolCalls st))"
  using assms
  by (auto simp: decideRound_def Let_def split: if_splits sum.splits prod.splits)

lemma pushKeys_ends:
  assumes "recent = w @ replicate n k" and "n < REPEATED_TOOL_CALL_WINDOW"
  shows "\<exists>w'. pushKeys recent [k] = w' @ replicate (Suc n) k"
proof -
  have eq: "recent @ [k] = w @ replicate (Suc n) k"
    using assms(1) by (simp add: replicate_append_same)
  show ?thesis
  proof (cases "length (recent @ [k]) > REPEATED_TOOL_CALL_WINDOW")
    case False
    with eq show ?thesis by (auto simp: pushKeys_def Let_def)
  next
    case True
    let ?d = "length (recent @ [k]) - REPEATED_TOOL_CALL_WINDOW"
    have "length (recent @ [k]) = length w + Suc n"
      using eq by (metis length_append length_replicate)
    then have "?d \<le> length w" using assms(2) by simp
    then have "drop ?d (w @ replicate (Suc n) k) = drop ?d w @ replicate (Suc n) k"
      by simp
    with True eq show ?thesis
      by (auto simp: pushKeys_def Let_def simp del: replicate_Suc)
  qed
qed

lemma count_ends:
  "recent = w @ replicate n k \<Longrightarrow> n \<le> sameKeyCountOf recent [k]"
  by (simp add: sameKeyCountOf_def)


lemma decideRound_plain:
  assumes "toolCalls st = []" and "\<not> containsStr (fullText st) TASK_COMPLETE_SIGNAL"
  shows "decideRound e s st =
          (if 2 \<le> Suc (consecutiveNoCompleteCount s)
           then Break (s\<lparr>conversationMessages := conversationMessages s @ assistantMessages st,
                          consecutiveNoCompleteCount := Suc (consecutiveNoCompleteCount s)\<rparr>)
           else Continue (s\<lparr>conversationMessages :=
                                conversationMessages s @ assistantMessages st @ [nudgeMessage],
                             consecutiveNoCompleteCount := Suc (consecutiveNoCompleteCount s)\<rparr>))"
  using assms by (simp add: decideRound_def Let_def assistantMessages_def)

lemma postLoop_fields:
  "invocations (postLoop M s) = invocations s"
  "requests (postLoop M s) = requests s"
  "conversationMessages (postLoop M s) = conversationMessages s"
  "iterationCount (postLoop M s) = iterationCount s"
  "set (progressLog s) \<subseteq> set (progressLog (postLoop M s))"
  by (auto simp: postLoop_def)

text \<open>
  C1.  Take a run that reaches three iterations in a row, each of which collects exactly
  one tool call from its stream, the three calls having the same name and the same
  serialized parameters.  Then the third iteration leaves the loop by the repetition
  \<open>break\<close>: its last progress call is the note about the repeated call, the run returns,
  and the calls passed to the tool service are those made before the third iteration.
\<close>

theorem C1_third_identical_call_aborts:
  assumes "M = maxIterationsOf maxIterations"
    and "stateAt e M (initialState messages) n = Some s0"
    and "stateAt e M (initialState messages) (Suc n) = Some s1"
    and "stateAt e M (initialState messages) (Suc (Suc n)) = Some s2"
    and "roundStream e M s0 = Some st0" and "toolCalls st0 = [c0]"
    and "roundStream e M s1 = Some st1" and "toolCalls st1 = [c1]"
    and "roundStream e M s2 = Some st2" and "toolCalls st2 = [c2]"
    and "tcName c0 = tcName c2" and "serializedParameters e c0 = serializedParameters e c2"
    and "tcName c1 = tcName c2" and "serializedParameters e c1 = serializedParameters e c2"
  shows "\<exists>s3. oneRound e M s2 = Some (Break s3)
            \<and> run e maxIterations messages = Inr (postLoop M s3)
            \<and> invocations (postLoop M s3) = invocations s2
            \<and> progressLog s3 = ss_progress st2 @ [repetitionNote]
            \<and> repetitionNote \<in> set (progressLog (postLoop M s3))"
proof -
  let ?k = "toolKey e c2"
  have k0: "toolKey e c0 = ?k" and k1: "toolKey e c1 = ?k"
    using assms(11-14) by (simp_all add: toolKey_def)
  \<comment> \<open>first round\<close>
  obtain s0' where p0: "requestPhase e (s0\<lparr>ticks := Suc (ticks s0)\<rparr>) = Inr (s0', st0)"
    and r0: "oneRound e M s0 = Some (decideRound e s0' st0)"
    using roundStream_oneRound [OF assms(5)] by blast
  have "oneRound e M s0 = Some (Continue s1)" using assms(2,3) by (rule stateAt_step)
  with r0 have d0: "decideRound e s0' st0 = Continue s1" by simp
  have w1: "recentToolKeys s1 = pushKeys (recentToolKeys s0') [?k]"
    using decideRound_calls_window [OF _ d0] assms(6) k0 by simp
  obtain v1 where e1: "recentToolKeys s1 = v1 @ replicate 1 ?k"
    using pushKeys_ends [of "recentToolKeys s0'" "recentToolKeys s0'" 0 ?k] w1
    by (auto simp: REPEATED_TOOL_CALL_WINDOW_def)
  \<comment> \<open>second round\<close>
  obtain s1' where p1: "requestPhase e (s1\<lparr>ticks := Suc (ticks s1)\<rparr>) = Inr (s1', st1)"
    and r1: "oneRound e M s1 = Some (decideRound e s1' st1)"
    using roundStream_oneRound [OF assms(7)] by blast
  have "oneRound e M s1 = Some (Continue s2)" using assms(3,4) by (rule stateAt_step)
  with r1 have d1: "decideRound e s1' st1 = Continue s2" by simp
  have "recentToolKeys s1' = recentToolKeys s1"
    using requestPhase_fields(4) [OF p1] by simp
  then have w2: "recentToolKeys s2 = pushKeys (recentToolKeys s1) [?k]"
    using decideRound_calls_window [OF _ d1] assms(8) k1 by simp
  obtain v2 where e2: "recentToolKeys s2 = v2 @ replicate 2 ?k"
    using pushKeys_ends [OF e1, of] w2
    by (auto simp: REPEATED_TOOL_CALL_WINDOW_def numeral_2_eq_2)
  \<comment> \<open>third round\<close>
  obtain s2' where p2: "requestPhase e (s2\<lparr>ticks := Suc (ticks s2)\<rparr>) = Inr (s2', st2)"
    and r2: "oneRound e M s2 = Some (decideRound e s2' st2)"
    using roundStream_oneRound [OF assms(9)] by blast
  have f2: "recentToolKeys s2' = recentToolKeys s2" "invocations s2' = invocations s2"
    "progressLog s2' = ss_progress st2"
    using requestPhase_fields [OF p2] by simp_all
  obtain v3 where e3: "pushKeys (recentToolKeys s2) [?k] = v3 @ replicate 3 ?k"
    using pushKeys_ends [OF e2]
    by (auto simp: REPEATED_TOOL_CALL_WINDOW_def numeral_3_eq_3 numeral_2_eq_2)
  have "3 \<le> sameKeyCountOf (pushKeys (recentToolKeys s2) [?k]) [?k]"
    using e3 by (rule count_ends)
  then have c3: "REPEATED_TOOL_CALL_THRESHOLD
           \<le> sameKeyCountOf (pushKeys (recentToolKeys s2') (map (toolKey e) (toolCalls st2)))
                (map (toolKey e) (toolCalls st2))"
    using f2 assms(10) by (simp add: REPEATED_TOOL_CALL_THRESHOLD_def)
  define s3 where "s3 = s2'\<lparr>conversationMessages := conversationMessages s2' @ assistantMessages st2,
                      consecutiveNoCompleteCount := 0,
                      recentToolKeys := pushKeys (recentToolKeys s2') (map (toolKey e) (toolCalls st2)),
                      progressLog := progressLog s2' @ [repetitionNote]\<rparr>"
  have d2: "decideRound e s2' st2 = Break s3"
    unfolding s3_def using assms(10) c3 by (intro decideRound_calls_Break) simp_all
  with r2 have b: "oneRound e M s2 = Some (Break s3)" by simp
  have "whileLoop e M (initialState messages) = whileLoop e M s2"
    using assms(4) by (rule stateAt_whileLoop)
  also have "\<dots> = Inr s3" using b by (rule whileLoop_Break)
  finally have run: "run e maxIterations messages = Inr (postLoop M s3)"
    using assms(1) by (simp add: run_def)
  have i3: "invocations s3 = invocations s2" "progressLog s3 = ss_progress st2 @ [repetitionNote]"
    using f2 by (simp_all add: s3_def)
  then have "repetitionNote \<in> set (progressLog (postLoop M s3))"
    using postLoop_fields(5) [of s3 M] by auto
  with b run i3 show ?thesis by (auto simp: postLoop_fields)
qed

text \<open>
  C3.  Take a run that reaches two iterations in a row whose responses carry no tool call
  and no completion marker.  Then the second of them leaves the loop and the run returns:
  the two requests are the last ones sent, and the conversation has grown by the first
  assistant message (if it has text), one nudge message, and the second assistant message
  (if it has text).
\<close>

theorem C3_two_plain_responses_stop:
  assumes "M = maxIterationsOf maxIterations"
    and "stateAt e M (initialState messages) n = Some s0"
    and "stateAt e M (initialState messages) (Suc n) = Some s1"
    and "roundStream e M s0 = Some st0" and "toolCalls st0 = []"
    and "\<not> containsStr (fullText st0) TASK_COMPLETE_SIGNAL"
    and "roundStream e M s1 = Some st1" and "toolCalls st1 = []"
    and "\<not> containsStr (fullText st1) TASK_COMPLETE_SIGNAL"
  shows "\<exists>s2. oneRound e M s1 = Some (Break s2)
            \<and> run e maxIterations messages = Inr (postLoop M s2)
            \<and> requests (postLoop M s2)
                = requests s0 @ [conversationMessages s0, conversationMessages s1]
            \<and> conversationMessages s1
                = conversationMessages s0 @ assistantMessages st0 @ [nudgeMessage]
            \<and> conversationMessages (postLoop M s2)
                = conversationMessages s1 @ assistantMessages st1"
proof -
  obtain s0' where p0: "requestPhase e (s0\<lparr>ticks := Suc (ticks s0)\<rparr>) = Inr (s0', st0)"
    and r0: "oneRound e M s0 = Some (decideRound e s0' st0)"
    using roundStream_oneRound [OF assms(4)] by blast
  have "oneRound e M s0 = Some (Continue s1)" using assms(2,3) by (rule stateAt_step)
  with r0 have d0: "decideRound e s0' st0 = Continue s1" by simp
  have f0: "conversationMessages s0' = conversationMessages s0"
    "requests s0' = requests s0 @ [conversationMessages s0]"
    using requestPhase_fields [OF p0] by simp_all
  from d0 have s1: "s1 = s0'\<lparr>conversationMessages :=
                                conversationMessages s0' @ assistantMessages st0 @ [nudgeMessage],
                             consecutiveNoCompleteCount := Suc (consecutiveNoCompleteCount s0')\<rparr>"
    and n0: "\<not> 2 \<le> Suc (consecutiveNoCompleteCount s0')"
    unfolding decideRound_plain [OF assms(5,6)] by (auto split: if_splits)
  obtain s1' where p1: "requestPhase e (s1\<lparr>ticks := Suc (ticks s1)\<rparr>) = Inr (s1', st1)"
    and r1: "oneRound e M s1 = Some (decideRound e s1' st1)"
    using roundStream_oneRound [OF assms(7)] by blast
  have f1: "conversationMessages s1' = conversationMessages s1"
    "requests s1' = requests s1 @ [conversationMessages s1]"
    "consecutiveNoCompleteCount s1' = consecutiveNoCompleteCount s1"
    using requestPhase_fields [OF p1] by simp_all
  define s2 where "s2 = s1'\<lparr>conversationMessages := conversationMessages s1' @ assistantMessages st1,
                          consecutiveNoCompleteCount := Suc (consecutiveNoCompleteCount s1')\<rparr>"
  have "consecutiveNoCompleteCount s1 = Suc (consecutiveNoCompleteCount s0')" by (simp add: s1)
  then have "2 \<le> Suc (consecutiveNoCompleteCount s1')" using f1 by simp
  then have "decideRound e s1' st1 = Break s2"
    unfolding decideRound_plain [OF assms(8,9)] s2_def by simp
  with r1 have b: "oneRound e M s1 = Some (Break s2)" by simp
  have "whileLoop e M (initialState messages) = whileLoop e M s1"
    using assms(3) by (rule stateAt_whileLoop)
  also have "\<dots> = Inr s2" using b by (rule whileLoop_Break)
  finally have run: "run e maxIterations messages = Inr (postLoop M s2)"
    using assms(1) by (simp add: run_def)
  have "requests s2 = requests s0 @ [conversationMessages s0, conversationMessages s1]"
    using f0 f1 by (simp add: s2_def s1)
  moreover have "conversationMessages s1
                = conversationMessages s0 @ assistantMessages st0 @ [nudgeMessage]"
    using f0 by (simp add: s1)
  moreover have "conversationMessages s2 = conversationMessages s1 @ assistantMessages st1"
    using f1 by (simp add: s2_def)
  ultimately show ?thesis using b run by (auto simp: postLoop_fields)
qed


lemma decideRound_counts:
  "decideRound e s st = Continue s' \<or> decideRound e s st = Break s' \<or> decideRound e s st = Throw err s'
   \<Longrightarrow> iterationCount s' = iterationCount s \<and> requests s' = requests s"
  by (auto simp: decideRound_def Let_def split: if_splits prod.splits sum.splits)

lemma requestPhase_counts:
  "requestPhase e s = Inl (err, s') \<or> requestPhase e s = Inr (s', st)
   \<Longrightarrow> iterationCount s' = Suc (iterationCount s) \<and> length (requests s') = Suc (length (requests s))"
  by (auto simp: requestPhase_def Let_def afterStream_def split: sum.splits prod.splits)

lemma iteration_counts:
  assumes "iteration e s = Continue s' \<or> iteration e s = Break s' \<or> iteration e s = Throw err s'"
  shows "iterationCount s' = Suc (iterationCount s) \<and> length (requests s') = Suc (length (requests s))"
proof (cases "requestPhase e s")
  case (Inl a)
  obtain err0 t where a: "a = (err0, t)" by (cases a)
  with Inl assms have "s' = t" by (auto simp: iteration_def)
  with Inl a requestPhase_counts [of e s err0 t] show ?thesis by simp
next
  case (Inr b)
  obtain t st where b: "b = (t, st)" by (cases b)
  with Inr assms have "decideRound e t st = Continue s' \<or> decideRound e t st = Break s'
      \<or> decideRound e t st = Throw err s'"
    by (auto simp: iteration_def)
  from decideRound_counts [OF this] requestPhase_counts [of e s _ t st] Inr b
  show ?thesis by simp
qed

lemma whileLoop_bound:
  "length (requests s) = iterationCount s \<Longrightarrow> iterationCount s \<le> M \<Longrightarrow>
   length (requests (finalState (whileLoop e M s))) = iterationCount (finalState (whileLoop e M s))
   \<and> iterationCount (finalState (whileLoop e M s)) \<le> M"
proof (induction e M s rule: whileLoop.induct)
  case (1 e M s)
  show ?case
  proof (cases "iterationCount s < M \<and> \<not> cancelAt e (ticks s)")
    case False
    with "1.prems" show ?thesis
      by (subst (1 2 3) whileLoop.simps) (auto simp: finalState_def)
  next
    case True
    let ?s0 = "s\<lparr>ticks := Suc (ticks s)\<rparr>"
    show ?thesis
    proof (cases "iteration e ?s0")
      case (Continue s')
      with iteration_counts [of e ?s0 s'] "1.prems" True
      have "length (requests s') = iterationCount s'" "iterationCount s' \<le> M" by auto
      with "1.IH" [of s'] True Continue
      have "length (requests (finalState (whileLoop e M s'))) = iterationCount (finalState (whileLoop e M s'))
            \<and> iterationCount (finalState (whileLoop e M s')) \<le> M" by simp
      moreover have "whileLoop e M s = whileLoop e M s'"
        using True Continue by (intro whileLoop_Continue) (simp add: oneRound_def)
      ultimately show ?thesis by simp
    next
      case (Break s')
      with iteration_counts [of e ?s0 s'] "1.prems" True
      have "length (requests s') = iterationCount s'" "iterationCount s' \<le> M" by auto
      moreover have "whileLoop e M s = Inr s'"
        using True Break by (intro whileLoop_Break) (simp add: oneRound_def)
      ultimately show ?thesis by (simp add: finalState_def)
    next
      case (Throw err s')
      with iteration_counts [of e ?s0 s' err] "1.prems" True
      have "length (requests s') = iterationCount s'" "iterationCount s' \<le> M" by auto
      moreover have "whileLoop e M s = Inl (err, s')"
        using True Throw by (intro whileLoop_Throw) (simp add: oneRound_def)
      ultimately show ?thesis by (simp add: finalState_def)
    qed
  qed
qed

lemma run_bound:
  "length (requests (finalState (run e mi msgs))) \<le> maxIterationsOf mi"
proof -
  have "length (requests (finalState (whileLoop e (maxIterationsOf mi) (initialState msgs))))
          \<le> maxIterationsOf mi"
    using whileLoop_bound [of "initialState msgs" "maxIterationsOf mi" e]
    by (simp add: initialState_def)
  then show ?thesis
    by (cases "whileLoop e (maxIterationsOf mi) (initialState msgs)")
       (auto simp: run_def finalState_def postLoop_fields)
qed

lemma handlePart_calls:
  "toolCalls (handlePart e st p) = toolCalls st @ partCalls p"
  by (cases p) (auto simp: Let_def)

lemma foldl_handlePart_calls:
  "toolCalls (foldl (handlePart e) st item) = toolCalls st @ concat (map partCalls item)"
  by (induction item arbitrary: st) (simp_all add: handlePart_calls)

lemma consumeItems_no_cancel:
  "\<forall>t. \<not> cancelAt e t \<Longrightarrow>
   snd (consumeItems e items st) = False
   \<and> toolCalls (fst (consumeItems e items st))
       = toolCalls st @ concat (map partCalls (concat items))"
proof (induction items arbitrary: st)
  case Nil
  show ?case by simp
next
  case (Cons item items)
  from Cons.prems
  have "consumeItems e (item # items) st
          = consumeItems e items (foldl (handlePart e) (st\<lparr>ss_ticks := Suc (ss_ticks st)\<rparr>) item)"
    by (simp add: Let_def)
  with Cons.IH [OF Cons.prems, of "foldl (handlePart e) (st\<lparr>ss_ticks := Suc (ss_ticks st)\<rparr>) item"]
  show ?case by (simp add: foldl_handlePart_calls)
qed

lemma flushDeltas_calls: "toolCalls (flushDeltas st) = toolCalls st"
  by (simp add: flushDeltas_def Let_def)

lemma streamRound_no_cancel:
  assumes "\<forall>t. \<not> cancelAt e t" and "cr_streamError response = None"
    and "cr_resultError response = None"
  shows "\<exists>st. streamRound e s response = Inr st
            \<and> toolCalls st = concat (map partCalls (concat (cr_items response)))"
proof -
  let ?st1 = "\<lparr>fullText = [], fullThinking = [], toolCalls = [],
                 lastProgressUpdate = clock e (ticks s),
                 lastThinkingUpdate = clock e (Suc (ticks s)),
                 lastEmittedDisplayLength = 0, lastEmittedThinkingLength = 0,
                 ss_hasEverEmitted = hasEverEmitted s,
                 ss_progress = progressLog s,
                 ss_ticks = Suc (Suc (ticks s))\<rparr>"
  obtain st2 broke where c: "consumeItems e (cr_items response) ?st1 = (st2, broke)"
    by (cases "consumeItems e (cr_items response) ?st1")
  from consumeItems_no_cancel [OF assms(1), of "cr_items response" ?st1] c
  have "broke = False" "toolCalls st2 = concat (map partCalls (concat (cr_items response)))"
    by simp_all
  with c assms(2,3) show ?thesis
    by (simp add: streamRound_def Let_def flushDeltas_calls)
qed

lemma alwaysCalls_nth:
  "alwaysCalls e k \<Longrightarrow> i < k \<Longrightarrow> responseOk (responses e i) \<and> responseCalls (responses e i) \<noteq> []"
  by (induction k) (auto simp: less_Suc_eq)

lemma iteration_quiet:
  assumes "\<forall>t. \<not> cancelAt e t"
    and "\<forall>n tc v. invokeTool e n tc \<noteq> Inl (NullishValue v)"
    and "responseOk (responses e (length (requests s)))"
    and "responseCalls (responses e (length (requests s))) \<noteq> []"
    and "sameKeyCountOf
           (pushKeys (recentToolKeys s) (map (toolKey e) (responseCalls (responses e (length (requests s))))))
           (map (toolKey e) (responseCalls (responses e (length (requests s)))))
         < REPEATED_TOOL_CALL_THRESHOLD"
  shows "\<exists>s'. iteration e s = Continue s'
            \<and> recentToolKeys s'
                = pushKeys (recentToolKeys s) (map (toolKey e) (responseCalls (responses e (length (requests s)))))
            \<and> consecutiveNoCompleteCount s' = 0"
proof -
  from assms(3) obtain response where r: "responses e (length (requests s)) = Inr response"
    and ok: "cr_streamError response = None" "cr_resultError response = None"
    by (auto simp: responseOk_def split: sum.splits)
  let ?s2 = "s\<lparr>iterationCount := Suc (iterationCount s),
               requests := requests s @ [conversationMessages s]\<rparr>"
  obtain st where sr: "streamRound e ?s2 response = Inr st"
    and tc: "toolCalls st = concat (map partCalls (concat (cr_items response)))"
    using streamRound_no_cancel [OF assms(1) ok] by blast
  have calls: "toolCalls st = responseCalls (responses e (length (requests s)))"
    using tc r by (simp add: responseCalls_def)
  have rp: "requestPhase e s = Inr (afterStream ?s2 st, st)"
    using r sr by (simp add: requestPhase_def Let_def)
  have "recentToolKeys (afterStream ?s2 st) = recentToolKeys s"
    by (simp add: afterStream_def)
  with decideRound_calls_Continue [of st "afterStream ?s2 st" e] assms(2,4,5) calls
  obtain s' where "decideRound e (afterStream ?s2 st) st = Continue s'"
    and "recentToolKeys s' = pushKeys (recentToolKeys s) (map (toolKey e) (toolCalls st))"
    and "consecutiveNoCompleteCount s' = 0"
    by auto
  with rp calls show ?thesis by (simp add: iteration_def)
qed

lemma whileLoop_exact:
  "\<forall>t. \<not> cancelAt e t \<Longrightarrow> alwaysCalls e M \<Longrightarrow>
         \<forall>n tc v. invokeTool e n tc \<noteq> Inl (NullishValue v) \<Longrightarrow>
         length (requests s) = iterationCount s \<Longrightarrow> iterationCount s \<le> M \<Longrightarrow>
         guardQuiet e (M - iterationCount s) (iterationCount s) (recentToolKeys s) \<Longrightarrow>
         \<exists>s'. whileLoop e M s = Inr s' \<and> iterationCount s' = M \<and> length (requests s') = M
             \<and> (iterationCount s < M \<longrightarrow> consecutiveNoCompleteCount s' = 0)"
proof (induction e M s rule: whileLoop.induct)
  case (1 e M s)
  note nc = "1.prems"(1) and nn = "1.prems"(3)
  show ?case
  proof (cases "iterationCount s < M")
    case False
    with "1.prems" have "whileLoop e M s = Inr s" "iterationCount s = M"
      by (simp_all add: whileLoop_limit)
    with "1.prems" False show ?thesis by simp
  next
    case True
    let ?s0 = "s\<lparr>ticks := Suc (ticks s)\<rparr>"
    let ?i = "iterationCount s"
    let ?keys = "map (toolKey e) (responseCalls (responses e ?i))"
    obtain k where k: "M - ?i = Suc k" using True by (cases "M - ?i") auto
    from "1.prems"(6) k
    have q1: "sameKeyCountOf (pushKeys (recentToolKeys s) ?keys) ?keys < REPEATED_TOOL_CALL_THRESHOLD"
      and q2: "guardQuiet e k (Suc ?i) (pushKeys (recentToolKeys s) ?keys)"
      by simp_all
    have ok: "responseOk (responses e ?i)" "responseCalls (responses e ?i) \<noteq> []"
      using alwaysCalls_nth [OF "1.prems"(2) True] by simp_all
    have len: "length (requests ?s0) = ?i" using "1.prems"(4) by simp
    obtain s' where it: "iteration e ?s0 = Continue s'"
      and w: "recentToolKeys s' = pushKeys (recentToolKeys s) ?keys"
      and c: "consecutiveNoCompleteCount s' = 0"
      using iteration_quiet [of e ?s0] nc nn ok q1 len by auto
    have cnt: "iterationCount s' = Suc ?i" "length (requests s') = Suc ?i"
      using iteration_counts [of e ?s0 s'] it len by simp_all
    have k': "M - iterationCount s' = k" using k cnt by simp
    have "\<exists>s''. whileLoop e M s' = Inr s'' \<and> iterationCount s'' = M \<and> length (requests s'') = M
             \<and> (iterationCount s' < M \<longrightarrow> consecutiveNoCompleteCount s'' = 0)"
      using "1.IH" [of s'] True nc it "1.prems"(1,2,3) cnt q2 w k' by simp
    then obtain s'' where fin: "whileLoop e M s' = Inr s''" "iterationCount s'' = M"
      "length (requests s'') = M"
      and c'': "iterationCount s' < M \<longrightarrow> consecutiveNoCompleteCount s'' = 0" by blast
    have "consecutiveNoCompleteCount s'' = 0"
    proof (cases "iterationCount s' < M")
      case True
      with c'' show ?thesis by simp
    next
      case False
      then have "whileLoop e M s' = Inr s'" by (rule whileLoop_limit)
      with fin c show ?thesis by simp
    qed
    moreover have "whileLoop e M s = whileLoop e M s'"
      using True nc it by (intro whileLoop_Continue) (simp add: oneRound_def)
    ultimately show ?thesis using fin by simp
  qed
qed


lemma maxIterationsOf_range:
  "1 \<le> maxIterationsOf mi \<and> maxIterationsOf mi \<le> 100 \<and> maxIterationsOf None = 25"
  by (auto simp: maxIterationsOf_def DEFAULT_MAX_ITERATIONS_def split: option.splits)

text \<open>
  C2 (amended).  No run sends more than \<open>MAX_ITERATIONS\<close> requests, which is the
  configured number clamped to at most 100 and 25 by default.  When the token is never
  cancelled, each of the first \<open>MAX_ITERATIONS\<close> responses arrives whole and carries a
  tool call, the repetition guard stays quiet on them, and no tool invocation rejects with
  \<open>null\<close> or \<open>undefined\<close>, the run sends exactly \<open>MAX_ITERATIONS\<close> requests and its
  last progress call is the iteration-limit note.
\<close>

theorem C2_iteration_limit:
  "length (requests (finalState (run e maxIterations messages))) \<le> maxIterationsOf maxIterations
   \<and> maxIterationsOf maxIterations \<le> 100
   \<and> maxIterationsOf None = 25
   \<and> ((\<forall>t. \<not> cancelAt e t)
        \<and> alwaysCalls e (maxIterationsOf maxIterations)
        \<and> guardQuiet e (maxIterationsOf maxIterations) 0 []
        \<and> (\<forall>n tc v. invokeTool e n tc \<noteq> Inl (NullishValue v))
      \<longrightarrow> (\<exists>s. run e maxIterations messages = Inr s
               \<and> length (requests s) = maxIterationsOf maxIterations
               \<and> last (progressLog s) = iterationLimitNote))"
proof -
  let ?M = "maxIterationsOf maxIterations"
  have exact: "\<exists>s. run e maxIterations messages = Inr s
               \<and> length (requests s) = ?M \<and> last (progressLog s) = iterationLimitNote"
    if nc: "\<forall>t. \<not> cancelAt e t" and ac: "alwaysCalls e ?M" and gq: "guardQuiet e ?M 0 []"
      and nn: "\<forall>n tc v. invokeTool e n tc \<noteq> Inl (NullishValue v)"
  proof -
    have pos: "0 < ?M" using maxIterationsOf_range [of maxIterations] by simp
    have "\<exists>s'. whileLoop e ?M (initialState messages) = Inr s' \<and> iterationCount s' = ?M
             \<and> length (requests s') = ?M
             \<and> (iterationCount (initialState messages) < ?M \<longrightarrow> consecutiveNoCompleteCount s' = 0)"
      using gq by (intro whileLoop_exact [OF nc ac nn]) (simp_all add: initialState_def)
    then obtain s' where w: "whileLoop e ?M (initialState messages) = Inr s'"
      and f: "iterationCount s' = ?M" "length (requests s') = ?M" "consecutiveNoCompleteCount s' = 0"
      using pos by (auto simp: initialState_def)
    have "postLoop ?M s' = s'\<lparr>progressLog := progressLog s' @ [iterationLimitNote]\<rparr>"
      using f by (simp add: postLoop_def)
    with w f show ?thesis by (simp add: run_def)
  qed
  from run_bound [of e maxIterations messages] maxIterationsOf_range [of maxIterations] exact
  show ?thesis by blast
qed



subsection \<open>The sample runs\<close>


lemma same_reach:
  "\<not> Option.is_none (stateAt sameCallEnv (maxIterationsOf None) (initialState demoMessages) (Suc 0))"
  "\<not> Option.is_none (stateAt sameCallEnv (maxIterationsOf None) (initialState demoMessages) (Suc (Suc 0)))"
  "\<not> Option.is_none (roundStream sameCallEnv (maxIterationsOf None) (initialState demoMessages))"
  "\<not> Option.is_none (roundStream sameCallEnv (maxIterationsOf None)
       (the (stateAt sameCallEnv (maxIterationsOf None) (initialState demoMessages) (Suc 0))))"
  "\<not> Option.is_none (roundStream sameCallEnv (maxIterationsOf None)
       (the (stateAt sameCallEnv (maxIterationsOf None) (initialState demoMessages) (Suc (Suc 0)))))"
  by code_simp+

lemma same_calls:
  "toolCalls (the (roundStream sameCallEnv (maxIterationsOf None) (initialState demoMessages)))
     = [\<lparr>tcName = ''listDirectory'', tcCallId = ''call_1'', tcParameters = JObj [(''path'', JStr ''.'')]\<rparr>]"
  "toolCalls (the (roundStream sameCallEnv (maxIterationsOf None)
       (the (stateAt sameCallEnv (maxIterationsOf None) (initialState demoMessages) (Suc 0)))))
     = [\<lparr>tcName = ''listDirectory'', tcCallId = ''call_1'', tcParameters = JObj [(''path'', JStr ''.'')]\<rparr>]"
  "toolCalls (the (roundStream sameCallEnv (maxIterationsOf None)
       (the (stateAt sameCallEnv (maxIterationsOf None) (initialState demoMessages) (Suc (Suc 0))))))
     = [\<lparr>tcName = ''listDirectory'', tcCallId = ''call_1'', tcParameters = JObj [(''path'', JStr ''.'')]\<rparr>]"
  by code_simp+

theorem C1_witness:
  "\<exists>s3. run sameCallEnv None demoMessages = Inr (postLoop (maxIterationsOf None) s3)
        \<and> invocations (postLoop (maxIterationsOf None) s3)
            = invocations (the (stateAt sameCallEnv (maxIterationsOf None) (initialState demoMessages) (Suc (Suc 0))))
        \<and> repetitionNote \<in> set (progressLog (postLoop (maxIterationsOf None) s3))"
proof -
  let ?M = "maxIterationsOf None"
  let ?i = "initialState demoMessages"
  let ?c = "\<lparr>tcName = ''listDirectory'', tcCallId = ''call_1'', tcParameters = JObj [(''path'', JStr ''.'')]\<rparr>"
  have 0: "stateAt sameCallEnv ?M ?i 0 = Some ?i" by simp
  have 1: "stateAt sameCallEnv ?M ?i (Suc 0) = Some (the (stateAt sameCallEnv ?M ?i (Suc 0)))"
    using same_reach(1) by (simp add: Option.is_none_def)
  have 2: "stateAt sameCallEnv ?M ?i (Suc (Suc 0)) = Some (the (stateAt sameCallEnv ?M ?i (Suc (Suc 0))))"
    using same_reach(2) by (simp add: Option.is_none_def)
  have 3: "roundStream sameCallEnv ?M ?i = Some (the (roundStream sameCallEnv ?M ?i))"
    using same_reach(3) by (simp add: Option.is_none_def)
  have 4: "roundStream sameCallEnv ?M (the (stateAt sameCallEnv ?M ?i (Suc 0)))
             = Some (the (roundStream sameCallEnv ?M (the (stateAt sameCallEnv ?M ?i (Suc 0)))))"
    using same_reach(4) by (simp add: Option.is_none_def)
  have 5: "roundStream sameCallEnv ?M (the (stateAt sameCallEnv ?M ?i (Suc (Suc 0))))
             = Some (the (roundStream sameCallEnv ?M (the (stateAt sameCallEnv ?M ?i (Suc (Suc 0))))))"
    using same_reach(5) by (simp add: Option.is_none_def)
  from C1_third_identical_call_aborts [OF refl 0 1 2 3 same_calls(1) 4 same_calls(2) 5 same_calls(3) refl refl refl refl]
  show ?thesis by blast
qed

lemma plain_reach:
  "\<not> Option.is_none (stateAt plainTextEnv (maxIterationsOf None) (initialState demoMessages) (Suc 0))"
  "\<not> Option.is_none (roundStream plainTextEnv (maxIterationsOf None) (initialState demoMessages))"
  "\<not> Option.is_none (roundStream plainTextEnv (maxIterationsOf None)
       (the (stateAt plainTextEnv (maxIterationsOf None) (initialState demoMessages) (Suc 0))))"
  "toolCalls (the (roundStream plainTextEnv (maxIterationsOf None) (initialState demoMessages))) = []"
  "\<not> containsStr (fullText (the (roundStream plainTextEnv (maxIterationsOf None) (initialState demoMessages))))
       TASK_COMPLETE_SIGNAL"
  "toolCalls (the (roundStream plainTextEnv (maxIterationsOf None)
       (the (stateAt plainTextEnv (maxIterationsOf None) (initialState demoMessages) (Suc 0))))) = []"
  "\<not> containsStr (fullText (the (roundStream plainTextEnv (maxIterationsOf None)
       (the (stateAt plainTextEnv (maxIterationsOf None) (initialState demoMessages) (Suc 0))))))
       TASK_COMPLETE_SIGNAL"
  by code_simp+

theorem C3_witness:
  "\<exists>s2. run plainTextEnv None demoMessages = Inr (postLoop (maxIterationsOf None) s2)
        \<and> requests (postLoop (maxIterationsOf None) s2)
            = [demoMessages,
               conversationMessages
                 (the (stateAt plainTextEnv (maxIterationsOf None) (initialState demoMessages) (Suc 0)))]"
proof -
  let ?M = "maxIterationsOf None"
  let ?i = "initialState demoMessages"
  have 0: "stateAt plainTextEnv ?M ?i 0 = Some ?i" by simp
  have 1: "stateAt plainTextEnv ?M ?i (Suc 0) = Some (the (stateAt plainTextEnv ?M ?i (Suc 0)))"
    using plain_reach(1) by (simp add: Option.is_none_def)
  have 2: "roundStream plainTextEnv ?M ?i = Some (the (roundStream plainTextEnv ?M ?i))"
    using plain_reach(2) by (simp add: Option.is_none_def)
  have 3: "roundStream plainTextEnv ?M (the (stateAt plainTextEnv ?M ?i (Suc 0)))
             = Some (the (roundStream plainTextEnv ?M (the (stateAt plainTextEnv ?M ?i (Suc 0)))))"
    using plain_reach(3) by (simp add: Option.is_none_def)
  from C3_two_plain_responses_stop [OF refl 0 1 2 plain_reach(4) plain_reach(5) 3 plain_reach(6) plain_reach(7)]
  show ?thesis by (auto simp: initialState_def)
qed

text \<open>
  C2, as stated, fails: a model that asks for the same listing on every iteration, and
  never emits the marker, is stopped by the repetition guard after 3 requests (and 2 tool
  invocations) although \<open>MAX_ITERATIONS\<close> is 25; the only note is the one about the
  repeated call.
\<close>

theorem C2_counterexample:
  "map_sum (\<lambda>x. ()) (\<lambda>s. (length (requests s), progressLog s, length (invocations s)))
     (run sameCallEnv None demoMessages) = Inr (3, [repetitionNote], 2)
   \<and> maxIterationsOf None = 25
   \<and> alwaysCalls sameCallEnv 25"
  by code_simp

theorem C2_witness:
  "\<exists>s. run alternatingEnv (Some 4) demoMessages = Inr s
       \<and> length (requests s) = maxIterationsOf (Some 4)
       \<and> last (progressLog s) = iterationLimitNote"
proof -
  have 1: "\<forall>t. \<not> cancelAt alternatingEnv t" by (simp add: alternatingEnv_def demoEnv_def)
  have 2: "alwaysCalls alternatingEnv (maxIterationsOf (Some 4))" by code_simp
  have 3: "guardQuiet alternatingEnv (maxIterationsOf (Some 4)) 0 []" by code_simp
  have 4: "\<forall>n tc v. invokeTool alternatingEnv n tc \<noteq> Inl (NullishValue v)"
    by (simp add: alternatingEnv_def demoEnv_def demoTool_def)
  from C2_iteration_limit [of alternatingEnv "Some 4" demoMessages] 1 2 3 4
  show ?thesis by blast
qed


end
